theory Spec2Isabelle
  imports Main "HOL-Library.Char_ord" "HOL-Library.List_Lexorder" "HOL-Library.Multiset"
begin

section \<open>String helpers used by the bot\<close>

text \<open>
  Python's \<^verbatim>\<open>s.rstrip('/')\<close>, \<^verbatim>\<open>s.startswith(p)\<close>, \<^verbatim>\<open>s.split('/')\<close> and
  \<^verbatim>\<open>p in s\<close> (substring test) on strings, as \<^verbatim>\<open>main.py\<close> uses them.
\<close>

definition rstrip :: "char \<Rightarrow> string \<Rightarrow> string" where
  "rstrip c s = rev (dropWhile (\<lambda>x. x = c) (rev s))"

definition startswith :: "string \<Rightarrow> string \<Rightarrow> bool" where
  "startswith s p = (take (length p) s = p)"

fun split_on :: "char \<Rightarrow> string \<Rightarrow> string list" where
  "split_on c [] = [[]]"
| "split_on c (x # xs) =
     (if x = c then [] # split_on c xs
      else (case split_on c xs of
              [] \<Rightarrow> [[x]]
            | w # ws \<Rightarrow> (x # w) # ws))"

fun contains :: "string \<Rightarrow> string \<Rightarrow> bool" where
  "contains [] p = (p = [])"
| "contains (x # xs) p = (startswith (x # xs) p \<or> contains xs p)"

section \<open>Data model: the upstream payload\<close>

text \<open>
  The JSON objects of the timetable service, restricted to the keys that
  decide which lessons \<^verbatim>\<open>TelegramBot.format_schedule\<close> prints and in which
  order, with the subject title and the end time to tell lessons apart; the
  other keys (number, type, week, lecturers, room, building, commentary) only
  feed the lines printed for one lesson.
  \<open>groupId\<close> holds \<^verbatim>\<open>str(group_info['lessonGroup']['groupId'])\<close>.
\<close>

record lessonGroup =
  groupId :: string
  groupCode :: string

record lesson =
  lessonDate :: string
  lessonTimeStart :: string
  lessonTimeEnd :: string
  lessonSubject :: string
  lessonGroups :: "lessonGroup list"

text \<open>
  \<^verbatim>\<open>data\<close>: the key \<^verbatim>\<open>'schedule'\<close> may be absent (\<open>None\<close>); inside it the key
  \<^verbatim>\<open>'records'\<close> may be absent (\<open>None\<close>, read as \<^verbatim>\<open>[]\<close> by \<^verbatim>\<open>.get('records', [])\<close>).
  \<^verbatim>\<open>'url'\<close> is added by \<^verbatim>\<open>get_schedule\<close>, \<^verbatim>\<open>'requested_group'\<close> by one caller.
\<close>

record schedule_data =
  schedule :: "lesson list option option"
  url :: "string option"
  requested_group :: "lessonGroup option"

definition get_records :: "schedule_data \<Rightarrow> lesson list" where
  "get_records d = (case schedule d of
                      None \<Rightarrow> []
                    | Some None \<Rightarrow> []
                    | Some (Some rs) \<Rightarrow> rs)"

text \<open>\<^verbatim>\<open>'schedule' in data and data['schedule'].get('records', [])\<close>\<close>

definition has_records :: "schedule_data \<Rightarrow> bool" where
  "has_records d = (schedule d \<noteq> None \<and> get_records d \<noteq> [])"

section \<open>The HTTP exchange\<close>

record request =
  req_url :: string
  req_params :: "(string \<times> string) list"

text \<open>
  What \<^verbatim>\<open>session.get\<close> followed by \<^verbatim>\<open>response.text()\<close> and \<^verbatim>\<open>response.json()\<close>
  can do: raise before any response is read (\<open>Transport_error\<close>), or give a
  status together with a body whose JSON decoding either raises (\<open>None\<close>) or
  yields the payload. A decoded value of another shape, on which
  \<^verbatim>\<open>'schedule' in data\<close> or \<^verbatim>\<open>.get\<close> raises, ends in the same
  \<^verbatim>\<open>except\<close> clause and counts as \<open>None\<close> too.
\<close>

datatype http_result =
    Transport_error
  | Response (status: int) (json: "schedule_data option")

datatype log_event =
    Log_fetching string "(string \<times> string) list"
  | Log_raw_response
  | Log_received nat
  | Log_retry_without_date
  | Log_no_records
  | Log_parse_error
  | Log_bad_status int
  | Log_fetch_error

record fetch_result =
  outcome :: "schedule_data option"
  requests :: "request list"
  logs :: "log_event list"

section \<open>ASUApi.get\_schedule\<close>

text \<open>\<^verbatim>\<open>if date:\<close> holds for a string that is given and not empty.\<close>

definition truthy_str :: "string option \<Rightarrow> bool" where
  "truthy_str d = (case d of None \<Rightarrow> False | Some s \<Rightarrow> s \<noteq> [])"

definition build_params :: "string \<Rightarrow> string option \<Rightarrow> (string \<times> string) list" where
  "build_params api_token date =
     [(''file'', ''list.json''), (''api_token'', api_token)] @
     (if truthy_str date then [(''date'', the date)] else [])"

definition build_url :: "string \<Rightarrow> string \<Rightarrow> string" where
  "build_url base_url path =
     (if startswith path ''lecturers/''
      then rstrip CHR ''/'' base_url @ ''/timetable/lecturers/15/65/'' @
           last (split_on CHR ''/'' path) @ ''/''
      else rstrip CHR ''/'' base_url @ ''/timetable/students/15/'' @ path)"

text \<open>\<^verbatim>\<open>params.pop('date')\<close>\<close>

definition pop_date :: "(string \<times> string) list \<Rightarrow> (string \<times> string) list" where
  "pop_date ps = filter (\<lambda>kv. fst kv \<noteq> ''date'') ps"

text \<open>\<^verbatim>\<open>date and '-' in date\<close>: the test that takes a query for a week.\<close>

definition is_range :: "string option \<Rightarrow> bool" where
  "is_range date = (truthy_str date \<and> CHR ''-'' \<in> set (the date))"

text \<open>
  The upstream service is a function of the request. The result carries the
  returned value (\<open>None\<close> is Python's \<^verbatim>\<open>None\<close>), the requests issued in
  order, and the log lines in order.
\<close>

definition get_schedule ::
  "(request \<Rightarrow> http_result) \<Rightarrow> string \<Rightarrow> string \<Rightarrow> string \<Rightarrow> string option \<Rightarrow> fetch_result" where
  "get_schedule upstream base_url api_token path date =
     (let params = build_params api_token date;
          u = build_url base_url path;
          req1 = \<lparr>req_url = u, req_params = params\<rparr>;
          log0 = [Log_fetching u params]
      in case upstream req1 of
           Transport_error \<Rightarrow>
             \<lparr>outcome = None, requests = [req1], logs = log0 @ [Log_fetch_error]\<rparr>
         | Response st body \<Rightarrow>
             (if st = 200 then
                (case body of
                   None \<Rightarrow>
                     \<lparr>outcome = None, requests = [req1],
                      logs = log0 @ [Log_raw_response, Log_parse_error]\<rparr>
                 | Some data \<Rightarrow>
                     (if has_records data then
                        \<lparr>outcome = Some (data\<lparr>url := Some u\<rparr>), requests = [req1],
                         logs = log0 @ [Log_raw_response, Log_received (length (get_records data))]\<rparr>
                      else if is_range date then
                        (let req2 = \<lparr>req_url = u, req_params = pop_date params\<rparr>;
                             log1 = log0 @ [Log_raw_response, Log_retry_without_date]
                         in case upstream req2 of
                              Transport_error \<Rightarrow>
                                \<lparr>outcome = None, requests = [req1, req2],
                                 logs = log1 @ [Log_parse_error]\<rparr>
                            | Response st2 body2 \<Rightarrow>
                                (case body2 of
                                   None \<Rightarrow>
                                     \<lparr>outcome = None, requests = [req1, req2],
                                      logs = log1 @ [Log_parse_error]\<rparr>
                                 | Some retry_data \<Rightarrow>
                                     (if has_records retry_data then
                                        \<lparr>outcome = Some (retry_data\<lparr>url := Some u\<rparr>),
                                         requests = [req1, req2],
                                         logs = log1 @ [Log_received (length (get_records retry_data))]\<rparr>
                                      else
                                        \<lparr>outcome = None, requests = [req1, req2],
                                         logs = log1 @ [Log_no_records]\<rparr>)))
                      else
                        \<lparr>outcome = None, requests = [req1],
                         logs = log0 @ [Log_raw_response, Log_no_records]\<rparr>))
              else
                \<lparr>outcome = None, requests = [req1],
                 logs = log0 @ [Log_raw_response, Log_bad_status st]\<rparr>))"

text \<open>
  The callers' date strings: a single day is \<^verbatim>\<open>strftime('%Y%m%d')\<close>, a week is
  \<^verbatim>\<open>f"{today.strftime('%Y%m%d')}-{week_end.strftime('%Y%m%d')}"\<close>.
\<close>

definition is_digit :: "char \<Rightarrow> bool" where
  "is_digit c = (c \<in> set ''0123456789'')"

definition yyyymmdd :: "string \<Rightarrow> bool" where
  "yyyymmdd d = (length d = 8 \<and> list_all is_digit d)"

datatype dateSpec = SingleDate string | DateRange string string

fun date_param :: "dateSpec \<Rightarrow> string" where
  "date_param (SingleDate d) = d"
| "date_param (DateRange a b) = a @ ''-'' @ b"

section \<open>TelegramBot.format\_schedule\<close>

datatype py_error = ValueError | IndexError | TelegramError | RedisError

text \<open>
  The header line \<^verbatim>\<open>schedule_type\<close>: empty, the group form with
  \<^verbatim>\<open>group['groupCode']\<close>, or the lecturer form with \<^verbatim>\<open>lecturer['lecturerName']\<close>.
\<close>

datatype subject_label = No_label | Group_label string | Lecturer_label string

record resolved =
  schedule_type :: subject_label
  is_group_schedule :: bool
  target_group :: "string option"

text \<open>
  The first block of \<^verbatim>\<open>format_schedule\<close>: \<^verbatim>\<open>'requested_group'\<close> wins, then the
  echoed URL; for a group URL the nested loop with its two \<^verbatim>\<open>break\<close>s stops at
  the first group of the first lesson whose id is the URL's last segment.
  \<^verbatim>\<open>url.split('/')[-2]\<close> raises IndexError on fewer than two segments.
  \<open>get_lecturer_by_id\<close> is the database lookup, giving \<^verbatim>\<open>lecturerName\<close>.
\<close>

definition resolve_subject ::
  "(string \<Rightarrow> string option) \<Rightarrow> schedule_data \<Rightarrow> lesson list \<Rightarrow> py_error + resolved" where
  "resolve_subject get_lecturer_by_id d recs =
     (case requested_group d of
        Some g \<Rightarrow>
          Inr \<lparr>schedule_type = Group_label (groupCode g), is_group_schedule = True,
               target_group = Some (groupCode g)\<rparr>
      | None \<Rightarrow>
          (case url d of
             None \<Rightarrow> Inr \<lparr>schedule_type = No_label, is_group_schedule = False, target_group = None\<rparr>
           | Some u \<Rightarrow>
               (if contains u ''lecturers'' then
                  (let segs = split_on CHR ''/'' u
                   in if length segs < 2 then Inl IndexError
                      else (case get_lecturer_by_id (segs ! (length segs - 2)) of
                              Some name \<Rightarrow>
                                Inr \<lparr>schedule_type = Lecturer_label name, is_group_schedule = False,
                                     target_group = None\<rparr>
                            | None \<Rightarrow>
                                Inr \<lparr>schedule_type = No_label, is_group_schedule = False,
                                     target_group = None\<rparr>))
                else
                  (let group_id = rstrip CHR ''/'' (last (split_on CHR ''/'' u))
                   in case find (\<lambda>g. groupId g = group_id) (concat (map lessonGroups recs)) of
                        Some g \<Rightarrow>
                          Inr \<lparr>schedule_type = Group_label (groupCode g), is_group_schedule = True,
                               target_group = Some (groupCode g)\<rparr>
                      | None \<Rightarrow>
                          Inr \<lparr>schedule_type = No_label, is_group_schedule = False,
                               target_group = None\<rparr>))))"

text \<open>
  \<^verbatim>\<open>if is_group_schedule: ... if target_group not in lesson_groups: continue\<close>
\<close>

definition skip_lesson :: "bool \<Rightarrow> string option \<Rightarrow> lesson \<Rightarrow> bool" where
  "skip_lesson is_group target l =
     (is_group \<and> target \<notin> set (map (\<lambda>g. Some (groupCode g)) (lessonGroups l)))"

text \<open>
  \<^verbatim>\<open>lessons_by_date\<close> is a dict, kept here in insertion order:
  \<^verbatim>\<open>if date not in lessons_by_date: lessons_by_date[date] = []\<close> and then
  \<^verbatim>\<open>lessons_by_date[date].append(lesson)\<close>.
\<close>

fun add_lesson :: "(string \<times> lesson list) list \<Rightarrow> lesson \<Rightarrow> (string \<times> lesson list) list" where
  "add_lesson [] l = [(lessonDate l, [l])]"
| "add_lesson ((d, ls) # rest) l =
     (if d = lessonDate l then (d, ls @ [l]) # rest else (d, ls) # add_lesson rest l)"

fun group_by_date ::
  "bool \<Rightarrow> string option \<Rightarrow> (string \<times> lesson list) list \<Rightarrow> lesson list \<Rightarrow> (string \<times> lesson list) list" where
  "group_by_date is_group target acc [] = acc"
| "group_by_date is_group target acc (l # ls) =
     (if skip_lesson is_group target l then group_by_date is_group target acc ls
      else group_by_date is_group target (add_lesson acc l) ls)"

text \<open>
  \<^verbatim>\<open>for date, lessons in sorted(lessons_by_date.items())\<close> orders the items by the
  date string (the keys of a dict are distinct, so the comparison of two items
  never reaches the lesson lists); \<^verbatim>\<open>lessons.sort(key=lambda x: x['lessonTimeStart'])\<close>
  is a stable sort on the start-time string. Python compares strings by code
  point, which is the order of \<^typ>\<open>string\<close> here.
\<close>

definition sorted_days :: "(string \<times> lesson list) list \<Rightarrow> (string \<times> lesson list) list" where
  "sorted_days by_date =
     map (\<lambda>(date, lessons). (date, sort_key lessonTimeStart lessons)) (sort_key fst by_date)"

text \<open>
  What \<^verbatim>\<open>format_schedule\<close> returns: the fixed "no schedule" text
  (\<open>Absent\<close>), or the text printed from the header label, the flag that hides
  the line of groups, and the days in the order printed, each with its lessons
  in the order printed.
\<close>

datatype formatted = Absent | Rendered subject_label bool "(string \<times> lesson list) list"

text \<open>
  \<open>strptime_ok date\<close>: \<^verbatim>\<open>datetime.strptime(date, '%Y%m%d')\<close> does not raise.
\<close>

definition format_schedule ::
  "(string \<Rightarrow> string option) \<Rightarrow> (string \<Rightarrow> bool) \<Rightarrow> schedule_data \<Rightarrow> py_error + formatted" where
  "format_schedule get_lecturer_by_id strptime_ok d =
     (if schedule d = None then Inr Absent
      else let recs = get_records d
           in if recs = [] then Inr Absent
              else (case resolve_subject get_lecturer_by_id d recs of
                      Inl e \<Rightarrow> Inl e
                    | Inr r \<Rightarrow>
                        (let days = sorted_days
                               (group_by_date (is_group_schedule r) (target_group r) [] recs)
                         in if list_all (\<lambda>day. strptime_ok (fst day)) days
                            then Inr (Rendered (schedule_type r) (is_group_schedule r) days)
                            else Inl ValueError)))"

section \<open>The bot: delivery queue, outbound channel, notification tick, broadcast\<close>

text \<open>
  The text handed to \<^verbatim>\<open>bot.send_message\<close>: the admin's broadcast text, the
  notification built from \<^verbatim>\<open>format_schedule\<close>, or
  "no lessons tomorrow" text, which carries \<^verbatim>\<open>tomorrow\<close>.
\<close>

datatype body = Text string | Tomorrow_schedule formatted | No_lessons_tomorrow string

datatype bot_log =
    Notification_sent int
  | Notification_error int
  | Broadcast_error int
  | Queue_error
  | Check_notifications_error

text \<open>
  \<open>message_queue\<close> is \<^verbatim>\<open>self.message_queue\<close> (an \<^verbatim>\<open>asyncio.Queue\<close> of
  \<^verbatim>\<open>(message, chat_id)\<close>); \<open>outbound\<close> lists the calls of
  \<^verbatim>\<open>bot.send_message(chat_id=..., text=...)\<close> made so far, in order.
\<close>

record bot =
  message_queue :: "(body \<times> int) list"
  outbound :: "(int \<times> body) list"
  bot_logs :: "bot_log list"

text \<open>
  Everything outside the process: the timetable service, the lecturer table,
  \<^verbatim>\<open>strptime\<close>, whether \<^verbatim>\<open>bot.send_message\<close> returns (\<open>True\<close>) or raises for a
  chat and a text, whether the admin's status message can be created and
  edited, and the configuration constants.
\<close>

record world =
  w_upstream :: "request \<Rightarrow> http_result"
  w_lecturers :: "string \<Rightarrow> string option"
  w_strptime_ok :: "string \<Rightarrow> bool"
  w_deliver :: "int \<Rightarrow> body \<Rightarrow> bool"
  w_reply_ok :: bool
  w_edit_ok :: "nat \<Rightarrow> bool"
  w_final_edit_ok :: bool
  w_tomorrow :: string
  asu_api_url :: string
  asu_api_token :: string

text \<open>\<^verbatim>\<open>TelegramBot.send_message\<close>: \<^verbatim>\<open>await self.message_queue.put((message, chat_id))\<close>\<close>

definition send_message :: "bot \<Rightarrow> int \<Rightarrow> body \<Rightarrow> bot" where
  "send_message b chat_id message = b\<lparr>message_queue := message_queue b @ [(message, chat_id)]\<rparr>"

subsection \<open>TelegramBot.check\_notifications\<close>

text \<open>A row of \<^verbatim>\<open>get_users_for_notification\<close>; \<open>sub_groupId\<close> is \<^verbatim>\<open>str(user['groupId'])\<close>.\<close>

record notification_row =
  sub_tg_id :: int
  sub_groupId :: string
  sub_groupCode :: string

text \<open>The body of the \<^verbatim>\<open>try\<close> inside the loop, up to the message.\<close>

definition notification_message :: "world \<Rightarrow> notification_row \<Rightarrow> py_error + body" where
  "notification_message w user =
     (case outcome (get_schedule (w_upstream w) (asu_api_url w) (asu_api_token w)
                      (sub_groupId user) (Some (w_tomorrow w))) of
        None \<Rightarrow> Inr (No_lessons_tomorrow (w_tomorrow w))
      | Some sched \<Rightarrow>
          (if schedule sched \<noteq> None then
             (case format_schedule (w_lecturers w) (w_strptime_ok w) sched of
                Inl e \<Rightarrow> Inl e
              | Inr f \<Rightarrow> Inr (Tomorrow_schedule f))
           else Inr (No_lessons_tomorrow (w_tomorrow w))))"

text \<open>
  One iteration of \<^verbatim>\<open>for user in users\<close>: the inner \<^verbatim>\<open>try\<close> and its
  \<^verbatim>\<open>except Exception\<close>, which logs the user's \<^verbatim>\<open>tg_id\<close> and continues.
\<close>

definition notify_user :: "world \<Rightarrow> bot \<Rightarrow> notification_row \<Rightarrow> bot" where
  "notify_user w b user =
     (case notification_message w user of
        Inl e \<Rightarrow> b\<lparr>bot_logs := bot_logs b @ [Notification_error (sub_tg_id user)]\<rparr>
      | Inr message \<Rightarrow>
          (if w_deliver w (sub_tg_id user) message
           then b\<lparr>outbound := outbound b @ [(sub_tg_id user, message)],
                  bot_logs := bot_logs b @ [Notification_sent (sub_tg_id user)]\<rparr>
           else b\<lparr>outbound := outbound b @ [(sub_tg_id user, message)],
                  bot_logs := bot_logs b @ [Notification_error (sub_tg_id user)]\<rparr>))"

fun notify_users :: "world \<Rightarrow> bot \<Rightarrow> notification_row list \<Rightarrow> bot" where
  "notify_users w b [] = b"
| "notify_users w b (user # users) = notify_users w (notify_user w b user) users"

text \<open>
  \<open>db_users\<close> is what \<^verbatim>\<open>self.db.get_users_for_notification(current_time)\<close> does:
  it returns rows, or raises (caught by the outer \<^verbatim>\<open>except\<close>).
\<close>

definition check_notifications :: "world \<Rightarrow> bot \<Rightarrow> py_error + notification_row list \<Rightarrow> bot" where
  "check_notifications w b db_users =
     (case db_users of
        Inl e \<Rightarrow> b\<lparr>bot_logs := bot_logs b @ [Check_notifications_error]\<rparr>
      | Inr users \<Rightarrow> notify_users w b users)"

subsection \<open>TelegramBot.process\_broadcast\<close>

text \<open>A row of \<^verbatim>\<open>SELECT * FROM users\<close>; \<open>is_banned\<close> may be NULL.\<close>

record user =
  tg_id :: int
  is_banned :: "int option"

text \<open>The truth value of \<^verbatim>\<open>u.get('is_banned')\<close>.\<close>

definition banned :: "user \<Rightarrow> bool" where
  "banned u = (case is_banned u of None \<Rightarrow> False | Some n \<Rightarrow> n \<noteq> 0)"

record broadcast_report =
  total_users :: nat
  success_count :: nat
  fail_count :: nat

text \<open>
  The loop \<^verbatim>\<open>for user in users\<close>. After a send that returns,
  \<^verbatim>\<open>success_count += 1\<close>, and every tenth success edits the status message;
  an exception of that edit lands in the same \<^verbatim>\<open>except\<close> as one of the send.
\<close>

fun broadcast_loop :: "world \<Rightarrow> string \<Rightarrow> bot \<times> nat \<times> nat \<Rightarrow> user list \<Rightarrow> bot \<times> nat \<times> nat" where
  "broadcast_loop w message_text (b, succ, fail) [] = (b, succ, fail)"
| "broadcast_loop w message_text (b, succ, fail) (u # us) =
     (let b1 = b\<lparr>outbound := outbound b @ [(tg_id u, Text message_text)]\<rparr>;
          b2 = b1\<lparr>bot_logs := bot_logs b1 @ [Broadcast_error (tg_id u)]\<rparr>
      in if w_deliver w (tg_id u) (Text message_text) then
           (if Suc succ mod 10 = 0 \<and> \<not> w_edit_ok w (Suc succ)
            then broadcast_loop w message_text (b2, Suc succ, Suc fail) us
            else broadcast_loop w message_text (b1, Suc succ, fail) us)
         else broadcast_loop w message_text (b2, succ, Suc fail) us)"

text \<open>
  The result: the bot afterwards, and either the exception that left
  \<^verbatim>\<open>process_broadcast\<close> or what it reported (\<open>None\<close>: the early \<^verbatim>\<open>return\<close>
  for an update without text).
\<close>

definition process_broadcast ::
  "world \<Rightarrow> bot \<Rightarrow> string option \<Rightarrow> user list \<Rightarrow> bot \<times> (py_error + broadcast_report option)" where
  "process_broadcast w b message_text all_users =
     (if \<not> truthy_str message_text then (b, Inr None)
      else let users = filter (\<lambda>u. \<not> banned u) all_users;
               total = length users
           in if \<not> w_reply_ok w then (b, Inl TelegramError)
              else (case broadcast_loop w (the message_text) (b, 0, 0) users of
                      (b', succ, fail) \<Rightarrow>
                        (if \<not> w_final_edit_ok w then (b', Inl TelegramError)
                         else (b', Inr (Some \<lparr>total_users = total, success_count = succ,
                                               fail_count = fail\<rparr>)))))"

subsection \<open>TelegramBot.\_process\_message\_queue\<close>

text \<open>
  One pass of the \<^verbatim>\<open>while True\<close> loop, on a clock in milliseconds: how long
  \<^verbatim>\<open>await self.message_queue.get()\<close> waited, how long the send took, whether it
  returned or raised, and by how much \<^verbatim>\<open>asyncio.sleep(0.05)\<close> overslept.
\<close>

record pass =
  wait_ms :: nat
  send_ms :: nat
  send_ok :: bool
  oversleep_ms :: nat

definition min_send_delay_ms :: nat where
  "min_send_delay_ms = 50"

text \<open>
  The state is the clock, the times at which \<^verbatim>\<open>bot.send_message\<close> was called,
  and the bot. The sleep stands after the send inside the inner \<^verbatim>\<open>try\<close>, so
  a send that raises goes to \<^verbatim>\<open>finally\<close> and the outer \<^verbatim>\<open>except\<close> without
  sleeping. On an empty queue \<^verbatim>\<open>get()\<close> does not return: the run ends there,
  as it does where the list of passes ends (the task is cancelled).
\<close>

fun process_message_queue :: "pass list \<Rightarrow> nat \<times> nat list \<times> bot \<Rightarrow> nat \<times> nat list \<times> bot" where
  "process_message_queue [] st = st"
| "process_message_queue (p # ps) (clock, called, b) =
     (case message_queue b of
        [] \<Rightarrow> (clock, called, b)
      | (message, chat_id) # rest \<Rightarrow>
          (let t_call = clock + wait_ms p;
               b1 = b\<lparr>message_queue := rest, outbound := outbound b @ [(chat_id, message)]\<rparr>
           in if send_ok p
              then process_message_queue ps
                     (t_call + send_ms p + min_send_delay_ms + oversleep_ms p, called @ [t_call], b1)
              else process_message_queue ps
                     (t_call + send_ms p, called @ [t_call],
                      b1\<lparr>bot_logs := bot_logs b1 @ [Queue_error]\<rparr>)))"

definition call_times :: "nat \<times> nat list \<times> bot \<Rightarrow> nat list" where
  "call_times st = fst (snd st)"

section \<open>TelegramBot.get\_cached\_schedule\<close>

text \<open>
  The method is synchronous and \<^verbatim>\<open>self.api.get_schedule\<close> is a coroutine
  function, so the call yields a coroutine object (always true in an \<^verbatim>\<open>if\<close>);
  the other return value is \<^verbatim>\<open>self.schedule_cache.get(cache_key)\<close>.
\<close>

datatype cached_value = From_cache "schedule_data option" | Coroutine string string

definition truthy_value :: "cached_value \<Rightarrow> bool" where
  "truthy_value v = (case v of Coroutine g d \<Rightarrow> True | From_cache c \<Rightarrow> c \<noteq> None)"

text \<open>
  \<open>lru\<close> is the table of \<^verbatim>\<open>@lru_cache(maxsize=100)\<close>, most recently used first;
  \<open>api_calls\<close> lists the calls of \<^verbatim>\<open>self.api.get_schedule\<close>. Times are
  microseconds, the resolution of \<^verbatim>\<open>datetime\<close>.
\<close>

record cache_state =
  lru :: "((string \<times> string) \<times> cached_value) list"
  cache_last_update :: "string \<rightharpoonup> int"
  schedule_cache :: "string \<rightharpoonup> schedule_data"
  api_calls :: "(string \<times> string) list"

definition cache_timeout :: int where
  "cache_timeout = 5 * 60 * 1000000"

definition lru_maxsize :: nat where
  "lru_maxsize = 100"

text \<open>\<^verbatim>\<open>cache_key = f"{group_id}_{date}"\<close>\<close>

definition cache_key :: "string \<Rightarrow> string \<Rightarrow> string" where
  "cache_key group_id date = group_id @ ''_'' @ date"

text \<open>
  The undecorated body; \<open>now1\<close> and \<open>now2\<close> are its two readings of
  \<^verbatim>\<open>datetime.now()\<close>.
\<close>

definition get_cached_schedule_body ::
  "cache_state \<Rightarrow> string \<Rightarrow> string \<Rightarrow> int \<Rightarrow> int \<Rightarrow> cached_value \<times> cache_state" where
  "get_cached_schedule_body s group_id date now1 now2 =
     (case cache_last_update s (cache_key group_id date) of
        Some t \<Rightarrow>
          if now1 - t < cache_timeout
          then (From_cache (schedule_cache s (cache_key group_id date)), s)
          else (let sched = Coroutine group_id date;
                    s1 = s\<lparr>api_calls := api_calls s @ [(group_id, date)]\<rparr>
                in if truthy_value sched
                   then (sched, s1\<lparr>cache_last_update :=
                                     (cache_last_update s1)(cache_key group_id date \<mapsto> now2)\<rparr>)
                   else (sched, s1))
      | None \<Rightarrow>
          (let sched = Coroutine group_id date;
               s1 = s\<lparr>api_calls := api_calls s @ [(group_id, date)]\<rparr>
           in if truthy_value sched
              then (sched, s1\<lparr>cache_last_update :=
                                (cache_last_update s1)(cache_key group_id date \<mapsto> now2)\<rparr>)
              else (sched, s1)))"

text \<open>
  The decorated method: a hit of the table returns the stored value and moves
  the entry to the front; a miss runs the body, stores the result and drops
  the least recently used entry beyond \<open>lru_maxsize\<close>.
\<close>

definition get_cached_schedule ::
  "cache_state \<Rightarrow> string \<Rightarrow> string \<Rightarrow> int \<Rightarrow> int \<Rightarrow> cached_value \<times> cache_state" where
  "get_cached_schedule s group_id date now1 now2 =
     (case map_of (lru s) (group_id, date) of
        Some v \<Rightarrow>
          (v, s\<lparr>lru := ((group_id, date), v) #
                        filter (\<lambda>e. fst e \<noteq> (group_id, date)) (lru s)\<rparr>)
      | None \<Rightarrow>
          (case get_cached_schedule_body s group_id date now1 now2 of
             (v, s') \<Rightarrow> (v, s'\<lparr>lru := take lru_maxsize (((group_id, date), v) # lru s')\<rparr>)))"

text \<open>A lookup: group id, date, and the two clock readings.\<close>

type_synonym lookup = "string \<times> string \<times> int \<times> int"

fun lookups :: "cache_state \<Rightarrow> lookup list \<Rightarrow> cache_state" where
  "lookups s [] = s"
| "lookups s ((g, d, now1, now2) # rest) = lookups (snd (get_cached_schedule s g d now1 now2)) rest"

definition calls_for :: "string \<Rightarrow> string \<Rightarrow> cache_state \<Rightarrow> nat" where
  "calls_for g d s = length (filter (\<lambda>c. c = (g, d)) (api_calls s))"

section \<open>RedisCache\<close>

text \<open>
  The Redis server is a map from keys to a value and its expiry in seconds.
  \<^verbatim>\<open>self.redis.pipeline()\<close> only creates a local buffer of commands;
  \<^verbatim>\<open>pipeline.execute()\<close> is where the client talks to the server: with the
  connection down it raises and the server is left as it was, otherwise the
  buffered commands are applied in order. \<open>dumps\<close> and \<open>loads\<close> are the JSON
  functions; \<open>None\<close> is an exception.
\<close>

type_synonym redis_store = "string \<rightharpoonup> string \<times> nat"

datatype redis_log = Redis_error_in_set_many | Redis_error_in_get_many | Redis_init_failed

definition default_ttl :: nat where
  "default_ttl = 300"

text \<open>\<^verbatim>\<open>ttl or self.default_ttl\<close>\<close>

definition ttl_or_default :: "nat option \<Rightarrow> nat" where
  "ttl_or_default ttl = (case ttl of None \<Rightarrow> default_ttl | Some t \<Rightarrow> if t = 0 then default_ttl else t)"

text \<open>
  The loop \<^verbatim>\<open>for key, value in mapping.items(): pipeline.set(key, dumps(value), ex=...)\<close>:
  the buffered commands, or \<open>None\<close> when a \<^verbatim>\<open>dumps\<close> raises.
\<close>

fun buffer_sets :: "('v \<Rightarrow> string option) \<Rightarrow> nat \<Rightarrow> (string \<times> 'v) list \<Rightarrow> (string \<times> string \<times> nat) list option" where
  "buffer_sets dumps ex [] = Some []"
| "buffer_sets dumps ex ((key, v) # rest) =
     (case dumps v of
        None \<Rightarrow> None
      | Some str \<Rightarrow> (case buffer_sets dumps ex rest of
                       None \<Rightarrow> None
                     | Some cmds \<Rightarrow> Some ((key, str, ex) # cmds)))"

fun execute_sets :: "redis_store \<Rightarrow> (string \<times> string \<times> nat) list \<Rightarrow> redis_store" where
  "execute_sets store [] = store"
| "execute_sets store ((key, str, ex) # cmds) = execute_sets (store(key \<mapsto> (str, ex))) cmds"

definition set_many ::
  "bool \<Rightarrow> ('v \<Rightarrow> string option) \<Rightarrow> redis_store \<Rightarrow> (string \<times> 'v) list \<Rightarrow> nat option
     \<Rightarrow> py_error + (redis_store \<times> redis_log list)" where
  "set_many connected dumps store mapping ttl =
     (case buffer_sets dumps (ttl_or_default ttl) mapping of
        None \<Rightarrow> Inr (store, [Redis_error_in_set_many])
      | Some cmds \<Rightarrow>
          (if connected then Inr (execute_sets store cmds, [])
           else Inr (store, [Redis_error_in_set_many])))"

text \<open>
  \<^verbatim>\<open>[loads(v) if v else None for v in values]\<close>: \<open>None\<close> when a \<^verbatim>\<open>loads\<close> raises.
\<close>

fun load_values :: "(string \<Rightarrow> 'v option) \<Rightarrow> string option list \<Rightarrow> 'v option list option" where
  "load_values loads [] = Some []"
| "load_values loads (v # vs) =
     (if truthy_str v then
        (case loads (the v) of
           None \<Rightarrow> None
         | Some x \<Rightarrow> (case load_values loads vs of None \<Rightarrow> None | Some xs \<Rightarrow> Some (Some x # xs)))
      else (case load_values loads vs of None \<Rightarrow> None | Some xs \<Rightarrow> Some (None # xs)))"

definition get_many ::
  "bool \<Rightarrow> (string \<Rightarrow> 'v option) \<Rightarrow> redis_store \<Rightarrow> string list
     \<Rightarrow> py_error + ('v option list \<times> redis_log list)" where
  "get_many connected loads store keys =
     (if connected then
        (case load_values loads (map (\<lambda>key. map_option fst (store key)) keys) of
           None \<Rightarrow> Inr (replicate (length keys) None, [Redis_error_in_get_many])
         | Some values \<Rightarrow> Inr (values, []))
      else Inr (replicate (length keys) None, [Redis_error_in_get_many]))"

text \<open>
  \<^verbatim>\<open>TelegramBot.__init__\<close>: \<^verbatim>\<open>try: self.redis_cache = RedisCache()\<close>,
  \<^verbatim>\<open>except Exception: self.redis_cache = None\<close>. \<open>constructed\<close>: the
  constructor returned.
\<close>

definition init_redis_cache :: "bool \<Rightarrow> redis_store \<Rightarrow> redis_store option \<times> redis_log list" where
  "init_redis_cache constructed store =
     (if constructed then (Some store, []) else (None, [Redis_init_failed]))"

section \<open>Notions used in the statements\<close>



text \<open>The stamp of a cache key is not older than \<open>t\<close>.\<close>

definition stamped_since :: "cache_state \<Rightarrow> string \<Rightarrow> int \<Rightarrow> bool" where
  "stamped_since s ck t = (case cache_last_update s ck of None \<Rightarrow> False | Some u \<Rightarrow> t \<le> u)"

text \<open>
  The grouping invariant: distinct dates, no empty day, and every lesson filed
  under its own date.
\<close>

definition well_grouped :: "(string \<times> lesson list) list \<Rightarrow> bool" where
  "well_grouped by_date =
     (distinct (map fst by_date) \<and>
      list_all (\<lambda>day. snd day \<noteq> [] \<and> list_all (\<lambda>l. lessonDate l = fst day) (snd day)) by_date)"

text \<open>
  The number a string of decimal digits denotes, and the two fixed-width
  formats of the timetable service: \<^verbatim>\<open>%Y%m%d\<close> dates (see \<open>yyyymmdd\<close>) and
  \<^verbatim>\<open>HH:MM\<close> times.
\<close>

definition digit_value :: "char \<Rightarrow> nat" where
  "digit_value c = of_char c - 48"

fun decimal :: "string \<Rightarrow> nat" where
  "decimal [] = 0"
| "decimal (c # cs) = digit_value c * 10 ^ length cs + decimal cs"

fun hhmm :: "string \<Rightarrow> bool" where
  "hhmm [h1, h2, c, m1, m2] = (is_digit h1 \<and> is_digit h2 \<and> c = CHR '':'' \<and> is_digit m1 \<and> is_digit m2)"
| "hhmm s = False"

definition clock_number :: "string \<Rightarrow> nat" where
  "clock_number s = decimal (filter is_digit s)"

text \<open>The key of the lru table that a lookup uses.\<close>

definition key_of :: "lookup \<Rightarrow> string \<times> string" where
  "key_of l = (fst l, fst (snd l))"

section \<open>Example inputs\<close>

text \<open>A payload with an empty list of records.\<close>

definition empty_data :: schedule_data where
  "empty_data = \<lparr>schedule = Some (Some []), url = None, requested_group = None\<rparr>"





definition lesson_a :: lesson where
  "lesson_a = \<lparr>lessonDate = ''20240102'', lessonTimeStart = ''09:45'', lessonTimeEnd = ''11:15'',
               lessonSubject = ''Algebra'',
               lessonGroups = [\<lparr>groupId = ''42'', groupCode = ''305c11-4''\<rparr>]\<rparr>"

definition lessons_data :: schedule_data where
  "lessons_data = \<lparr>schedule = Some (Some [lesson_a]), url = None, requested_group = None\<rparr>"





text \<open>JSON functions for values that are numbers: only digits load.\<close>

definition dumps_digits :: "string \<Rightarrow> string option" where
  "dumps_digits v = (if list_all is_digit v then Some v else None)"

definition example_store :: redis_store where
  "example_store = [''k1'' \<mapsto> (''7'', 300)]"

text \<open>A bot that has not sent or queued anything, and a tick with four subscribers.\<close>

definition empty_bot :: bot where
  "empty_bot = \<lparr>message_queue = [], outbound = [], bot_logs = []\<rparr>"

definition bad_date_lesson :: lesson where
  "bad_date_lesson = \<lparr>lessonDate = ''2024-01-02'', lessonTimeStart = ''08:00'', lessonTimeEnd = ''09:30'',
               lessonSubject = ''Physics'',
               lessonGroups = [\<lparr>groupId = ''13'', groupCode = ''101-1''\<rparr>]\<rparr>"

definition bad_date_data :: schedule_data where
  "bad_date_data = \<lparr>schedule = Some (Some [bad_date_lesson]), url = None, requested_group = None\<rparr>"

definition tick_upstream :: "request \<Rightarrow> http_result" where
  "tick_upstream r =
     (if req_url r = ''https://api/timetable/students/15/42'' then Response 200 (Some lessons_data)
      else if req_url r = ''https://api/timetable/students/15/13'' then Response 200 (Some bad_date_data)
      else Transport_error)"

definition no_lecturers :: "string \<Rightarrow> string option" where
  "no_lecturers lecturer_id = None"

definition deliver_unless_1003 :: "int \<Rightarrow> body \<Rightarrow> bool" where
  "deliver_unless_1003 chat_id message = (chat_id \<noteq> 1003)"

definition always_ok :: "nat \<Rightarrow> bool" where
  "always_ok n = True"

definition tick_world :: world where
  "tick_world = \<lparr>w_upstream = tick_upstream, w_lecturers = no_lecturers,
                  w_strptime_ok = yyyymmdd, w_deliver = deliver_unless_1003,
                  w_reply_ok = True, w_edit_ok = always_ok, w_final_edit_ok = True,
                  w_tomorrow = ''20240102'', asu_api_url = ''https://api/'', asu_api_token = ''t''\<rparr>"

definition lookup_fails_row :: notification_row where
  "lookup_fails_row = \<lparr>sub_tg_id = 1004, sub_groupId = ''77'', sub_groupCode = ''200-2''\<rparr>"

definition tick_rows :: "notification_row list" where
  "tick_rows =
     [\<lparr>sub_tg_id = 1001, sub_groupId = ''42'', sub_groupCode = ''305c11-4''\<rparr>,
      \<lparr>sub_tg_id = 1002, sub_groupId = ''13'', sub_groupCode = ''101-1''\<rparr>,
      \<lparr>sub_tg_id = 1003, sub_groupId = ''42'', sub_groupCode = ''305c11-4''\<rparr>,
      \<lparr>sub_tg_id = 1004, sub_groupId = ''77'', sub_groupCode = ''200-2''\<rparr>]"

text \<open>Three stored users, the second one banned.\<close>

definition stored_users :: "user list" where
  "stored_users =
     [\<lparr>tg_id = 1001, is_banned = Some 0\<rparr>,
      \<lparr>tg_id = 1002, is_banned = Some 1\<rparr>,
      \<lparr>tg_id = 1003, is_banned = None\<rparr>]"

text \<open>A bot that has not looked anything up yet.\<close>

definition empty_cache :: cache_state where
  "empty_cache = \<lparr>lru = [], cache_last_update = Map.empty, schedule_cache = Map.empty, api_calls = []\<rparr>"

text \<open>
  Two queued messages; the first send is rejected after 20 ms, the second
  one goes through.
\<close>

definition two_queued :: bot where
  "two_queued = \<lparr>message_queue = [(Text ''a'', 1001), (Text ''b'', 1002)], outbound = [], bot_logs = []\<rparr>"

definition rejected_then_sent :: "pass list" where
  "rejected_then_sent =
     [\<lparr>wait_ms = 0, send_ms = 20, send_ok = False, oversleep_ms = 0\<rparr>,
      \<lparr>wait_ms = 0, send_ms = 20, send_ok = True, oversleep_ms = 0\<rparr>]"

definition both_sent :: "pass list" where
  "both_sent =
     [\<lparr>wait_ms = 0, send_ms = 20, send_ok = True, oversleep_ms = 3\<rparr>,
      \<lparr>wait_ms = 0, send_ms = 20, send_ok = True, oversleep_ms = 0\<rparr>]"

text \<open>
  Four lessons on two days; group 305c11-4 attends three of them. The payload
  as the "tomorrow" handler passes it (with \<^verbatim>\<open>'requested_group'\<close>), and as
  \<^verbatim>\<open>get_schedule\<close> returns it for a lecturer.
\<close>

definition group_42 :: lessonGroup where
  "group_42 = \<lparr>groupId = ''42'', groupCode = ''305c11-4''\<rparr>"

definition group_13 :: lessonGroup where
  "group_13 = \<lparr>groupId = ''13'', groupCode = ''101-1''\<rparr>"

definition lesson_b :: lesson where
  "lesson_b = \<lparr>lessonDate = ''20240102'', lessonTimeStart = ''08:00'', lessonTimeEnd = ''09:30'',
               lessonSubject = ''Physics'', lessonGroups = [group_42, group_13]\<rparr>"

definition lesson_c :: lesson where
  "lesson_c = \<lparr>lessonDate = ''20240103'', lessonTimeStart = ''08:00'', lessonTimeEnd = ''09:30'',
               lessonSubject = ''History'', lessonGroups = [group_42]\<rparr>"

definition lesson_x :: lesson where
  "lesson_x = \<lparr>lessonDate = ''20240102'', lessonTimeStart = ''11:30'', lessonTimeEnd = ''13:00'',
               lessonSubject = ''Chemistry'', lessonGroups = [group_13]\<rparr>"

definition week_records :: "lesson list" where
  "week_records = [lesson_c, lesson_a, lesson_x, lesson_b]"

definition group_week_data :: schedule_data where
  "group_week_data = \<lparr>schedule = Some (Some week_records),
                       url = Some ''https://api/timetable/students/15/42'',
                       requested_group = Some group_42\<rparr>"

definition lecturer_week_data :: schedule_data where
  "lecturer_week_data = \<lparr>schedule = Some (Some week_records),
                          url = Some ''https://api/timetable/lecturers/15/65/7/'',
                          requested_group = None\<rparr>"

definition one_lecturer :: "string \<Rightarrow> string option" where
  "one_lecturer lecturer_id = (if lecturer_id = ''7'' then Some ''Ivanov'' else None)"

text \<open>
  A history that ends with an old entry for group 305: it is fetched at time
  0, then a hundred other groups are looked up and push it out of the lru
  table. Then the two lookups of group 305, 15 microseconds apart and just
  around the end of its five minutes, with a hundred lookups of other keys in
  between.
\<close>

definition digits :: string where
  "digits = ''0123456789''"

definition filler_groups :: "string list" where
  "filler_groups = map (\<lambda>(a, b). [a, b]) (List.product digits digits)"

definition stale_history :: "lookup list" where
  "stale_history =
     (''305'', ''20240102'', 0, 1) # map (\<lambda>g. (g, ''20240102'', 2, 2)) filler_groups"

definition first_lookup :: lookup where
  "first_lookup = (''305'', ''20240102'', 299999990, 299999990)"

definition in_between :: "lookup list" where
  "in_between = map (\<lambda>g. (g, ''20240103'', 299999995, 299999995)) filler_groups"

definition second_lookup :: lookup where
  "second_lookup = (''305'', ''20240102'', 300000005, 300000005)"

section \<open>Facts about get\_schedule\<close>

lemma dash_not_digit: "\<not> is_digit CHR ''-''"
  by (simp add: is_digit_def)

lemma yyyymmdd_no_dash: "yyyymmdd d \<Longrightarrow> CHR ''-'' \<notin> set d"
  unfolding yyyymmdd_def list_all_iff using dash_not_digit by blast

lemma yyyymmdd_truthy: "yyyymmdd d \<Longrightarrow> truthy_str (Some d)"
  by (auto simp: yyyymmdd_def truthy_str_def)

lemma build_params_truthy:
  "truthy_str date \<Longrightarrow>
   build_params tok date = [(''file'', ''list.json''), (''api_token'', tok), (''date'', the date)]"
  by (simp add: build_params_def)

lemma build_params_falsy:
  "\<not> truthy_str date \<Longrightarrow>
   build_params tok date = [(''file'', ''list.json''), (''api_token'', tok)]"
  by (simp add: build_params_def)

lemma pop_date_build_params:
  "pop_date (build_params tok date) = [(''file'', ''list.json''), (''api_token'', tok)]"
proof (cases "truthy_str date")
  case True
  then show ?thesis by (simp add: build_params_truthy pop_date_def)
next
  case False
  then show ?thesis by (simp add: build_params_falsy pop_date_def)
qed

lemma get_schedule_requests_retry:
  assumes "upstream \<lparr>req_url = build_url base_url path, req_params = build_params tok date\<rparr>
             = Response 200 (Some data)"
    and "\<not> has_records data" and "is_range date"
  shows "requests (get_schedule upstream base_url tok path date) =
           [\<lparr>req_url = build_url base_url path, req_params = build_params tok date\<rparr>,
            \<lparr>req_url = build_url base_url path, req_params = pop_date (build_params tok date)\<rparr>]"
  using assms unfolding get_schedule_def Let_def
  by (simp split: http_result.split option.split)

lemma get_schedule_requests_no_retry:
  assumes "\<not> is_range date"
  shows "requests (get_schedule upstream base_url tok path date) =
           [\<lparr>req_url = build_url base_url path, req_params = build_params tok date\<rparr>]"
  using assms unfolding get_schedule_def Let_def
  by (simp split: http_result.split option.split)

text \<open>
  C1. For a week query (the date string \<^verbatim>\<open>f"{a}-{b}"\<close>) whose first response is
  HTTP 200 with no records, \<^verbatim>\<open>get_schedule\<close> issues exactly two requests: the
  first with the date, then one fallback with the date parameter removed, and
  nothing after it. For a single-date query (a \<^verbatim>\<open>%Y%m%d\<close> string, as every caller
  builds it) exactly one request is issued, whatever the service answers.
\<close>

theorem get_schedule_range_fallback_once:
  "(\<forall>data.
      upstream \<lparr>req_url = build_url base_url path,
                req_params = [(''file'', ''list.json''), (''api_token'', tok),
                              (''date'', date_param (DateRange a b))]\<rparr>
        = Response 200 (Some data) \<and> \<not> has_records data \<longrightarrow>
      requests (get_schedule upstream base_url tok path (Some (date_param (DateRange a b)))) =
        [\<lparr>req_url = build_url base_url path,
          req_params = [(''file'', ''list.json''), (''api_token'', tok),
                        (''date'', date_param (DateRange a b))]\<rparr>,
         \<lparr>req_url = build_url base_url path,
          req_params = [(''file'', ''list.json''), (''api_token'', tok)]\<rparr>])
   \<and> (yyyymmdd d \<longrightarrow>
      requests (get_schedule upstream base_url tok path (Some (date_param (SingleDate d)))) =
        [\<lparr>req_url = build_url base_url path,
          req_params = [(''file'', ''list.json''), (''api_token'', tok), (''date'', d)]\<rparr>])"
proof (intro conjI allI impI)
  let ?r = "Some (date_param (DateRange a b))"
  have t: "truthy_str ?r" by (simp add: truthy_str_def)
  have r: "is_range ?r" by (simp add: is_range_def truthy_str_def)
  have bp: "build_params tok ?r =
      [(''file'', ''list.json''), (''api_token'', tok), (''date'', date_param (DateRange a b))]"
    using build_params_truthy[OF t, of tok] by simp
  fix data
  assume h: "upstream \<lparr>req_url = build_url base_url path,
                req_params = [(''file'', ''list.json''), (''api_token'', tok),
                              (''date'', date_param (DateRange a b))]\<rparr>
        = Response 200 (Some data) \<and> \<not> has_records data"
  with bp have h1: "upstream \<lparr>req_url = build_url base_url path, req_params = build_params tok ?r\<rparr>
        = Response 200 (Some data)" and h2: "\<not> has_records data"
    by simp_all
  show "requests (get_schedule upstream base_url tok path ?r) =
        [\<lparr>req_url = build_url base_url path,
          req_params = [(''file'', ''list.json''), (''api_token'', tok),
                        (''date'', date_param (DateRange a b))]\<rparr>,
         \<lparr>req_url = build_url base_url path,
          req_params = [(''file'', ''list.json''), (''api_token'', tok)]\<rparr>]"
    using get_schedule_requests_retry[where upstream = upstream and base_url = base_url
        and path = path and tok = tok and date = "?r" and data = data, OF h1 h2 r]
    unfolding pop_date_build_params unfolding bp .
next
  let ?s = "Some (date_param (SingleDate d))"
  assume y: "yyyymmdd d"
  have nr: "\<not> is_range ?s" using yyyymmdd_no_dash[OF y] by (simp add: is_range_def)
  have bp: "build_params tok ?s = [(''file'', ''list.json''), (''api_token'', tok), (''date'', d)]"
    using build_params_truthy[of "Some d" tok] yyyymmdd_truthy[OF y] by simp
  show "requests (get_schedule upstream base_url tok path ?s) =
        [\<lparr>req_url = build_url base_url path,
          req_params = [(''file'', ''list.json''), (''api_token'', tok), (''date'', d)]\<rparr>]"
    using get_schedule_requests_no_retry[where upstream = upstream and base_url = base_url
        and path = path and tok = tok, OF nr] by (simp only: bp)
qed

theorem get_schedule_range_fallback_once_witness:
  "length (requests (get_schedule (\<lambda>r. Response 200 (Some empty_data)) ''https://api/'' ''t'' ''42''
       (Some ''20240101-20240107''))) = 2
   \<and> length (requests (get_schedule (\<lambda>r. Response 200 (Some empty_data)) ''https://api/'' ''t'' ''42''
       (Some ''20240101''))) = 1"
proof -
  have e: "\<not> has_records empty_data" by (simp add: has_records_def empty_data_def get_records_def)
  have y: "yyyymmdd ''20240101''" by (simp add: yyyymmdd_def is_digit_def)
  have dr: "date_param (DateRange ''20240101'' ''20240107'') = ''20240101-20240107''" by simp
  have ds: "date_param (SingleDate ''20240101'') = ''20240101''" by simp
  note th = get_schedule_range_fallback_once[where upstream = "\<lambda>r. Response 200 (Some empty_data)"
      and base_url = "''https://api/''" and tok = "''t''" and path = "''42''"
      and a = "''20240101''" and b = "''20240107''" and d = "''20240101''", unfolded dr ds]
  from th e have 1: "length (requests (get_schedule (\<lambda>r. Response 200 (Some empty_data)) ''https://api/'' ''t'' ''42''
       (Some ''20240101-20240107''))) = 2" by simp
  from th y have 2: "length (requests (get_schedule (\<lambda>r. Response 200 (Some empty_data)) ''https://api/'' ''t'' ''42''
       (Some ''20240101''))) = 1" by simp
  from 1 2 show ?thesis by simp
qed


















section \<open>Facts about RedisCache\<close>

lemma load_values_length:
  "load_values loads vs = Some xs \<Longrightarrow> length xs = length vs"
proof (induction vs arbitrary: xs)
  case Nil
  then show ?case by simp
next
  case (Cons v vs)
  then show ?case by (auto split: if_splits option.splits)
qed

lemma get_many_returns:
  "\<exists>values log. get_many connected loads store keys = Inr (values, log) \<and> length values = length keys"
proof (cases "connected \<and> load_values loads (map (\<lambda>key. map_option fst (store key)) keys) \<noteq> None")
  case True
  then obtain xs where xs: "load_values loads (map (\<lambda>key. map_option fst (store key)) keys) = Some xs"
    by auto
  from load_values_length[OF xs] have "length xs = length keys" by simp
  with True xs show ?thesis by (simp add: get_many_def)
next
  case False
  then show ?thesis by (auto simp: get_many_def)
qed

lemma get_many_miss:
  "\<not> connected \<or> load_values loads (map (\<lambda>key. map_option fst (store key)) keys) = None \<Longrightarrow>
   get_many connected loads store keys = Inr (replicate (length keys) None, [Redis_error_in_get_many])"
  by (auto simp: get_many_def)

lemma set_many_returns:
  "\<exists>store' log. set_many connected dumps store mapping ttl = Inr (store', log)"
  by (simp add: set_many_def split: option.split)

lemma set_many_no_effect:
  "\<not> connected \<or> buffer_sets dumps (ttl_or_default ttl) mapping = None \<Longrightarrow>
   set_many connected dumps store mapping ttl = Inr (store, [Redis_error_in_set_many])"
  by (auto simp: set_many_def split: option.split)

text \<open>
  C9. \<^verbatim>\<open>get_many\<close> and \<^verbatim>\<open>set_many\<close> always return and never raise. With the
  connection down, or when a \<^verbatim>\<open>loads\<close> raises, \<^verbatim>\<open>get_many\<close> logs the error and
  returns \<^verbatim>\<open>[None] * len(keys)\<close>; in every case its result is as long as the list
  of keys. With the connection down, or when a \<^verbatim>\<open>dumps\<close> raises, \<^verbatim>\<open>set_many\<close>
  logs the error and leaves the server as it was. A constructor of
  \<^verbatim>\<open>RedisCache\<close> that raises leaves the bot without a shared cache.
\<close>

theorem redis_batch_degrades_to_miss:
  "(\<exists>values log. get_many connected loads store keys = Inr (values, log) \<and>
                  length values = length keys)
   \<and> (\<not> connected \<or> load_values loads (map (\<lambda>key. map_option fst (store key)) keys) = None \<longrightarrow>
        get_many connected loads store keys =
          Inr (replicate (length keys) None, [Redis_error_in_get_many]))
   \<and> (\<exists>store' log. set_many connected dumps store mapping ttl = Inr (store', log))
   \<and> (\<not> connected \<or> buffer_sets dumps (ttl_or_default ttl) mapping = None \<longrightarrow>
        set_many connected dumps store mapping ttl = Inr (store, [Redis_error_in_set_many]))
   \<and> (\<not> constructed \<longrightarrow> init_redis_cache constructed store = (None, [Redis_init_failed]))"
  using get_many_returns[of connected loads store keys] get_many_miss[of connected loads store keys]
    set_many_returns[of connected dumps store mapping ttl]
    set_many_no_effect[of connected dumps ttl mapping store]
  by (simp add: init_redis_cache_def)

theorem redis_batch_degrades_to_miss_witness:
  "get_many False dumps_digits example_store [''k1'', ''k2''] = Inr ([None, None], [Redis_error_in_get_many])
   \<and> set_many False dumps_digits example_store [(''k2'', ''8'')] None
        = Inr (example_store, [Redis_error_in_set_many])
   \<and> init_redis_cache False example_store = (None, [Redis_init_failed])"
  using redis_batch_degrades_to_miss[where connected = False and constructed = False
      and loads = dumps_digits and dumps = dumps_digits and store = example_store
      and keys = "[''k1'', ''k2'']" and mapping = "[(''k2'', ''8'')]" and ttl = None]
  by (simp add: numeral_2_eq_2)

section \<open>Facts about the notification tick and the broadcast\<close>

lemma notify_user_queue: "message_queue (notify_user w b u) = message_queue b"
  by (simp add: notify_user_def split: sum.split)

lemma notify_user_outbound:
  "outbound (notify_user w b u) =
     outbound b @ (case notification_message w u of Inl e \<Rightarrow> [] | Inr m \<Rightarrow> [(sub_tg_id u, m)])"
  by (simp add: notify_user_def split: sum.split)

lemma notify_user_logs:
  "bot_logs (notify_user w b u) =
     bot_logs b @ [case notification_message w u of
                     Inl e \<Rightarrow> Notification_error (sub_tg_id u)
                   | Inr m \<Rightarrow> if w_deliver w (sub_tg_id u) m then Notification_sent (sub_tg_id u)
                              else Notification_error (sub_tg_id u)]"
  by (simp add: notify_user_def split: sum.split)

lemma notify_users_queue: "message_queue (notify_users w b us) = message_queue b"
  by (induction us arbitrary: b) (simp_all add: notify_user_queue)

lemma notify_users_outbound:
  "outbound (notify_users w b us) =
     outbound b @ concat (map (\<lambda>u. case notification_message w u of
                                      Inl e \<Rightarrow> [] | Inr m \<Rightarrow> [(sub_tg_id u, m)]) us)"
  by (induction us arbitrary: b) (simp_all add: notify_user_outbound)

lemma notify_users_logs:
  "bot_logs (notify_users w b us) =
     bot_logs b @ map (\<lambda>u. case notification_message w u of
                     Inl e \<Rightarrow> Notification_error (sub_tg_id u)
                   | Inr m \<Rightarrow> if w_deliver w (sub_tg_id u) m then Notification_sent (sub_tg_id u)
                              else Notification_error (sub_tg_id u)) us"
  by (induction us arbitrary: b) (simp_all add: notify_user_logs)

lemma check_notifications_queue:
  "message_queue (check_notifications w b db_users) = message_queue b"
  by (simp add: check_notifications_def notify_users_queue split: sum.split)

lemma broadcast_loop_queue:
  "message_queue (fst (broadcast_loop w t (b, s, f) us)) = message_queue b"
  by (induction us arbitrary: b s f) (simp_all add: Let_def)

lemma broadcast_loop_outbound:
  "outbound (fst (broadcast_loop w t (b, s, f) us)) = outbound b @ map (\<lambda>u. (tg_id u, Text t)) us"
  by (induction us arbitrary: b s f) (simp_all add: Let_def)

lemma process_broadcast_queue:
  "message_queue (fst (process_broadcast w b message_text all_users)) = message_queue b"
proof -
  obtain b' s f where l: "broadcast_loop w (the message_text) (b, 0, 0) (filter (\<lambda>u. \<not> banned u) all_users) = (b', s, f)"
    by (cases "broadcast_loop w (the message_text) (b, 0, 0) (filter (\<lambda>u. \<not> banned u) all_users)") auto
  from broadcast_loop_queue[of w "the message_text" b 0 0 "filter (\<lambda>u. \<not> banned u) all_users"] l
  have "message_queue b' = message_queue b" by simp
  with l show ?thesis by (simp add: process_broadcast_def Let_def)
qed

lemma process_broadcast_outbound:
  assumes "truthy_str message_text" and "w_reply_ok w"
  shows "outbound (fst (process_broadcast w b message_text all_users)) =
           outbound b @ map (\<lambda>u. (tg_id u, Text (the message_text))) (filter (\<lambda>u. \<not> banned u) all_users)"
proof -
  obtain b' s f where l: "broadcast_loop w (the message_text) (b, 0, 0) (filter (\<lambda>u. \<not> banned u) all_users) = (b', s, f)"
    by (cases "broadcast_loop w (the message_text) (b, 0, 0) (filter (\<lambda>u. \<not> banned u) all_users)") auto
  from broadcast_loop_outbound[of w "the message_text" b 0 0 "filter (\<lambda>u. \<not> banned u) all_users"] l
  have "outbound b' = outbound b @ map (\<lambda>u. (tg_id u, Text (the message_text))) (filter (\<lambda>u. \<not> banned u) all_users)"
    by simp
  with l assms show ?thesis by (simp add: process_broadcast_def Let_def)
qed

lemma process_broadcast_not_started:
  assumes "\<not> truthy_str message_text \<or> \<not> w_reply_ok w"
  shows "fst (process_broadcast w b message_text all_users) = b"
  using assms by (auto simp: process_broadcast_def Let_def)

lemma process_broadcast_total:
  assumes "snd (process_broadcast w b message_text all_users) = Inr (Some rep)"
  shows "total_users rep = length (filter (\<lambda>u. \<not> banned u) all_users)"
proof -
  obtain b' s f where l: "broadcast_loop w (the message_text) (b, 0, 0) (filter (\<lambda>u. \<not> banned u) all_users) = (b', s, f)"
    by (cases "broadcast_loop w (the message_text) (b, 0, 0) (filter (\<lambda>u. \<not> banned u) all_users)") auto
  from assms l show ?thesis
    by (auto simp: process_broadcast_def Let_def split: if_splits)
qed

lemma tick_messages:
  "map (notification_message tick_world) tick_rows =
     [Inr (Tomorrow_schedule (Rendered (Group_label ''305c11-4'') True [(''20240102'', [lesson_a])])),
      Inl ValueError,
      Inr (Tomorrow_schedule (Rendered (Group_label ''305c11-4'') True [(''20240102'', [lesson_a])])),
      Inr (No_lessons_tomorrow ''20240102'')]"
  by code_simp

text \<open>
  C4 as stated fails: after a tick and after a broadcast the delivery queue
  is still empty, and the messages went out through direct calls of
  \<^verbatim>\<open>context.bot.send_message\<close>.
\<close>

theorem deliveries_bypass_queue_counterexample:
  "message_queue (check_notifications tick_world empty_bot (Inr tick_rows)) = []
   \<and> map fst (outbound (check_notifications tick_world empty_bot (Inr tick_rows))) = [1001, 1003, 1004]
   \<and> message_queue (fst (process_broadcast tick_world empty_bot (Some ''hello'') stored_users)) = []
   \<and> map fst (outbound (fst (process_broadcast tick_world empty_bot (Some ''hello'') stored_users)))
        = [1001, 1003]"
  by code_simp

text \<open>
  C4, as the code has it. Neither the notification tick nor a broadcast puts
  anything into \<^verbatim>\<open>self.message_queue\<close>: both leave it as it was and call
  \<^verbatim>\<open>context.bot.send_message\<close> directly, the tick once for every matched
  subscriber whose message could be built, a broadcast that starts (the update
  has a text and the status message could be created) once for every stored
  user that is not banned.
\<close>

theorem deliveries_are_direct_calls:
  "message_queue (check_notifications w b db_users) = message_queue b
   \<and> outbound (check_notifications w b (Inr users)) =
       outbound b @ concat (map (\<lambda>u. case notification_message w u of
                                        Inl e \<Rightarrow> [] | Inr m \<Rightarrow> [(sub_tg_id u, m)]) users)
   \<and> message_queue (fst (process_broadcast w b message_text all_users)) = message_queue b
   \<and> (truthy_str message_text \<and> w_reply_ok w \<longrightarrow>
        outbound (fst (process_broadcast w b message_text all_users)) =
          outbound b @ map (\<lambda>u. (tg_id u, Text (the message_text)))
                           (filter (\<lambda>u. \<not> banned u) all_users))"
  using check_notifications_queue[of w b db_users] notify_users_outbound[of w b users]
    process_broadcast_queue[of w b message_text all_users]
    process_broadcast_outbound[of message_text w b all_users]
  by (simp add: check_notifications_def)

theorem deliveries_are_direct_calls_witness:
  "message_queue (check_notifications tick_world empty_bot (Inr tick_rows)) = []
   \<and> outbound (check_notifications tick_world empty_bot (Inr tick_rows)) =
      [(1001, Tomorrow_schedule (Rendered (Group_label ''305c11-4'') True [(''20240102'', [lesson_a])])),
       (1003, Tomorrow_schedule (Rendered (Group_label ''305c11-4'') True [(''20240102'', [lesson_a])])),
       (1004, No_lessons_tomorrow ''20240102'')]
   \<and> message_queue (fst (process_broadcast tick_world empty_bot (Some ''hello'') stored_users)) = []
   \<and> outbound (fst (process_broadcast tick_world empty_bot (Some ''hello'') stored_users)) =
      [(1001, Text ''hello''), (1003, Text ''hello'')]"
proof -
  have m: "map (notification_message tick_world) tick_rows =
     [Inr (Tomorrow_schedule (Rendered (Group_label ''305c11-4'') True [(''20240102'', [lesson_a])])),
      Inl ValueError,
      Inr (Tomorrow_schedule (Rendered (Group_label ''305c11-4'') True [(''20240102'', [lesson_a])])),
      Inr (No_lessons_tomorrow ''20240102'')]"
    by (rule tick_messages)
  have t: "truthy_str (Some ''hello'') \<and> w_reply_ok tick_world"
    by (simp add: truthy_str_def tick_world_def)
  have f: "filter (\<lambda>u. \<not> banned u) stored_users =
      [\<lparr>tg_id = 1001, is_banned = Some 0\<rparr>, \<lparr>tg_id = 1003, is_banned = None\<rparr>]"
    by (simp add: stored_users_def banned_def)
  note th = deliveries_are_direct_calls[where w = tick_world and b = empty_bot
      and db_users = "Inr tick_rows" and users = tick_rows
      and message_text = "Some ''hello''" and all_users = stored_users]
  from th t show ?thesis
    using m by (simp add: f empty_bot_def tick_rows_def)
qed

text \<open>
  C10. A broadcast that starts (the update has a text and the status message
  could be created) calls \<^verbatim>\<open>send_message\<close> once for each stored user whose
  \<^verbatim>\<open>is_banned\<close> is not set, in the order of the table, and for nobody else; a
  broadcast that does not start calls it for nobody. The reported total is
  the number of stored users that are not banned.
\<close>

theorem process_broadcast_recipients:
  "(truthy_str message_text \<and> w_reply_ok w \<longrightarrow>
      outbound (fst (process_broadcast w b message_text all_users)) =
        outbound b @ map (\<lambda>u. (tg_id u, Text (the message_text)))
                         (filter (\<lambda>u. \<not> banned u) all_users))
   \<and> (\<not> truthy_str message_text \<or> \<not> w_reply_ok w \<longrightarrow>
      fst (process_broadcast w b message_text all_users) = b)
   \<and> (\<forall>rep. snd (process_broadcast w b message_text all_users) = Inr (Some rep) \<longrightarrow>
      total_users rep = length (filter (\<lambda>u. \<not> banned u) all_users))"
  using process_broadcast_outbound[of message_text w b all_users]
    process_broadcast_not_started[of message_text w b all_users]
    process_broadcast_total[of w b message_text all_users]
  by blast

theorem process_broadcast_recipients_witness:
  "outbound (fst (process_broadcast tick_world empty_bot (Some ''hello'') stored_users)) =
      [(1001, Text ''hello''), (1003, Text ''hello'')]
   \<and> snd (process_broadcast tick_world empty_bot (Some ''hello'') stored_users) =
      Inr (Some \<lparr>total_users = 2, success_count = 1, fail_count = 1\<rparr>)
   \<and> total_users \<lparr>total_users = 2, success_count = 1, fail_count = 1\<rparr> = length (filter (\<lambda>u. \<not> banned u) stored_users)
   \<and> fst (process_broadcast tick_world empty_bot None stored_users) = empty_bot"
proof -
  have t: "truthy_str (Some ''hello'') \<and> w_reply_ok tick_world"
    by (simp add: truthy_str_def tick_world_def)
  have n: "\<not> truthy_str None" by (simp add: truthy_str_def)
  have f: "filter (\<lambda>u. \<not> banned u) stored_users =
      [\<lparr>tg_id = 1001, is_banned = Some 0\<rparr>, \<lparr>tg_id = 1003, is_banned = None\<rparr>]"
    by (simp add: stored_users_def banned_def)
  have r: "snd (process_broadcast tick_world empty_bot (Some ''hello'') stored_users) =
      Inr (Some \<lparr>total_users = 2, success_count = 1, fail_count = 1\<rparr>)"
    by code_simp
  note th = process_broadcast_recipients[where w = tick_world and b = empty_bot
      and all_users = stored_users]
  from th[where message_text = "Some ''hello''"] t
  have 1: "outbound (fst (process_broadcast tick_world empty_bot (Some ''hello'') stored_users)) =
      [(1001, Text ''hello''), (1003, Text ''hello'')]"
    by (simp add: f empty_bot_def)
  from th[where message_text = "Some ''hello''"] r
  have 2: "total_users \<lparr>total_users = 2, success_count = 1, fail_count = 1\<rparr>
             = length (filter (\<lambda>u. \<not> banned u) stored_users)"
    by blast
  from th[where message_text = None] n
  have 3: "fst (process_broadcast tick_world empty_bot None stored_users) = empty_bot"
    by blast
  from 1 r 2 3 show ?thesis by blast
qed

text \<open>
  C8 as stated fails for a lookup error: with the timetable service
  unreachable \<^verbatim>\<open>get_schedule\<close> logs the failure without any subscriber and
  returns \<open>None\<close>; the tick then sends the "no lessons tomorrow" text and logs
  the subscriber as sent, not as failed.
\<close>

theorem lookup_failure_logged_as_sent_counterexample:
  "last (logs (get_schedule (w_upstream tick_world) (asu_api_url tick_world)
                 (asu_api_token tick_world) (sub_groupId lookup_fails_row)
                 (Some (w_tomorrow tick_world)))) = Log_fetch_error
   \<and> bot_logs (check_notifications tick_world empty_bot (Inr [lookup_fails_row]))
       = [Notification_sent 1004]
   \<and> outbound (check_notifications tick_world empty_bot (Inr [lookup_fails_row]))
       = [(1004, No_lessons_tomorrow ''20240102'')]"
  by code_simp

text \<open>
  C8, as the code has it. In a tick every matched subscriber leaves exactly
  one log line with its own \<^verbatim>\<open>tg_id\<close>, in the order of the rows: "sent" when
  its message was built and the send returned, "error" when building the
  message or the send raised. The line of a subscriber depends on that
  subscriber alone, and every subscriber whose message was built has its send
  attempted, whatever happened to the others. A lookup that fails raises
  nothing here: \<^verbatim>\<open>get_schedule\<close> returns \<open>None\<close> and the message is the
  "no lessons tomorrow" text.
\<close>

theorem check_notifications_isolates_failures:
  "bot_logs (check_notifications w b (Inr users)) =
     bot_logs b @ map (\<lambda>u. case notification_message w u of
                     Inl e \<Rightarrow> Notification_error (sub_tg_id u)
                   | Inr m \<Rightarrow> if w_deliver w (sub_tg_id u) m then Notification_sent (sub_tg_id u)
                              else Notification_error (sub_tg_id u)) users
   \<and> (\<forall>u \<in> set users. \<forall>m. notification_message w u = Inr m \<longrightarrow>
        (sub_tg_id u, m) \<in> set (outbound (check_notifications w b (Inr users))))
   \<and> (\<forall>u. outcome (get_schedule (w_upstream w) (asu_api_url w) (asu_api_token w)
                      (sub_groupId u) (Some (w_tomorrow w))) = None \<longrightarrow>
        notification_message w u = Inr (No_lessons_tomorrow (w_tomorrow w)))"
proof (intro conjI ballI allI impI)
  show "bot_logs (check_notifications w b (Inr users)) =
     bot_logs b @ map (\<lambda>u. case notification_message w u of
                     Inl e \<Rightarrow> Notification_error (sub_tg_id u)
                   | Inr m \<Rightarrow> if w_deliver w (sub_tg_id u) m then Notification_sent (sub_tg_id u)
                              else Notification_error (sub_tg_id u)) users"
    by (simp add: check_notifications_def notify_users_logs)
next
  fix u m
  assume u: "u \<in> set users" and m: "notification_message w u = Inr m"
  have "(sub_tg_id u, m) \<in> set (case notification_message w u of
                                   Inl e \<Rightarrow> [] | Inr m \<Rightarrow> [(sub_tg_id u, m)])"
    using m by simp
  with u have "(sub_tg_id u, m) \<in> set (concat (map (\<lambda>u. case notification_message w u of
                                      Inl e \<Rightarrow> [] | Inr m \<Rightarrow> [(sub_tg_id u, m)]) users))"
    by (auto intro!: bexI[of _ u])
  then show "(sub_tg_id u, m) \<in> set (outbound (check_notifications w b (Inr users)))"
    by (simp add: check_notifications_def notify_users_outbound)
next
  fix u :: notification_row
  assume "outcome (get_schedule (w_upstream w) (asu_api_url w) (asu_api_token w)
                      (sub_groupId u) (Some (w_tomorrow w))) = None"
  then show "notification_message w u = Inr (No_lessons_tomorrow (w_tomorrow w))"
    by (simp add: notification_message_def)
qed

theorem check_notifications_isolates_failures_witness:
  "bot_logs (check_notifications tick_world empty_bot (Inr tick_rows)) =
     [Notification_sent 1001, Notification_error 1002, Notification_error 1003, Notification_sent 1004]
   \<and> (1004, No_lessons_tomorrow ''20240102'')
        \<in> set (outbound (check_notifications tick_world empty_bot (Inr tick_rows)))
   \<and> notification_message tick_world lookup_fails_row = Inr (No_lessons_tomorrow ''20240102'')"
proof -
  have m: "map (notification_message tick_world) tick_rows =
     [Inr (Tomorrow_schedule (Rendered (Group_label ''305c11-4'') True [(''20240102'', [lesson_a])])),
      Inl ValueError,
      Inr (Tomorrow_schedule (Rendered (Group_label ''305c11-4'') True [(''20240102'', [lesson_a])])),
      Inr (No_lessons_tomorrow ''20240102'')]"
    by (rule tick_messages)
  have d: "w_deliver tick_world = deliver_unless_1003" by (simp add: tick_world_def)
  have t: "w_tomorrow tick_world = ''20240102''" by (simp add: tick_world_def)
  have o: "outcome (get_schedule (w_upstream tick_world) (asu_api_url tick_world)
                      (asu_api_token tick_world) (sub_groupId lookup_fails_row)
                      (Some (w_tomorrow tick_world))) = None"
    by code_simp
  note th = check_notifications_isolates_failures[where w = tick_world and b = empty_bot
      and users = tick_rows]
  from th have 1: "bot_logs (check_notifications tick_world empty_bot (Inr tick_rows)) =
     [Notification_sent 1001, Notification_error 1002, Notification_error 1003, Notification_sent 1004]"
    using m by (simp add: d empty_bot_def tick_rows_def deliver_unless_1003_def)
  have u: "lookup_fails_row \<in> set tick_rows"
    by (simp add: tick_rows_def lookup_fails_row_def)
  from th o have k: "notification_message tick_world lookup_fails_row
            = Inr (No_lessons_tomorrow (w_tomorrow tick_world))"
    by blast
  from th u k have 2: "(sub_tg_id lookup_fails_row, No_lessons_tomorrow (w_tomorrow tick_world))
        \<in> set (outbound (check_notifications tick_world empty_bot (Inr tick_rows)))"
    by blast
  have i: "sub_tg_id lookup_fails_row = 1004" by (simp add: lookup_fails_row_def)
  from 1 2 k show ?thesis by (simp add: t i)
qed

section \<open>Facts about get\_cached\_schedule\<close>

lemma body_cases:
  assumes "get_cached_schedule_body s g d n1 n2 = (v, s')"
  shows "(v = From_cache (schedule_cache s (cache_key g d)) \<and> s' = s \<and>
          (\<exists>u. cache_last_update s (cache_key g d) = Some u \<and> n1 - u < cache_timeout)) \<or>
         (v = Coroutine g d \<and>
          s' = s\<lparr>api_calls := api_calls s @ [(g, d)],
                 cache_last_update := (cache_last_update s)(cache_key g d \<mapsto> n2)\<rparr> \<and>
          (\<forall>u. cache_last_update s (cache_key g d) = Some u \<longrightarrow> \<not> n1 - u < cache_timeout))"
proof (cases "cache_last_update s (cache_key g d)")
  case None
  with assms show ?thesis
    by (auto simp: get_cached_schedule_body_def truthy_value_def Let_def)
next
  case (Some u)
  show ?thesis
  proof (cases "n1 - u < cache_timeout")
    case True
    with Some assms show ?thesis
      by (auto simp: get_cached_schedule_body_def)
  next
    case False
    with Some assms show ?thesis
      by (auto simp: get_cached_schedule_body_def truthy_value_def Let_def)
  qed
qed

lemma get_cached_schedule_cases:
  assumes "get_cached_schedule s g d n1 n2 = (v, s')"
  shows "(api_calls s' = api_calls s \<and> cache_last_update s' = cache_last_update s) \<or>
         (api_calls s' = api_calls s @ [(g, d)] \<and>
          cache_last_update s' = (cache_last_update s)(cache_key g d \<mapsto> n2) \<and>
          map_of (lru s) (g, d) = None \<and>
          (\<forall>u. cache_last_update s (cache_key g d) = Some u \<longrightarrow> \<not> n1 - u < cache_timeout))"
proof (cases "map_of (lru s) (g, d)")
  case (Some w)
  with assms show ?thesis by (auto simp: get_cached_schedule_def)
next
  case None
  obtain v0 s0 where b: "get_cached_schedule_body s g d n1 n2 = (v0, s0)"
    by (cases "get_cached_schedule_body s g d n1 n2") auto
  with None assms have s': "s' = s0\<lparr>lru := take lru_maxsize (((g, d), v0) # lru s0)\<rparr>"
    by (auto simp: get_cached_schedule_def)
  from body_cases[OF b] show ?thesis
  proof
    assume "v0 = From_cache (schedule_cache s (cache_key g d)) \<and> s0 = s \<and>
          (\<exists>u. cache_last_update s (cache_key g d) = Some u \<and> n1 - u < cache_timeout)"
    with s' show ?thesis by simp
  next
    assume "v0 = Coroutine g d \<and>
          s0 = s\<lparr>api_calls := api_calls s @ [(g, d)],
                 cache_last_update := (cache_last_update s)(cache_key g d \<mapsto> n2)\<rparr> \<and>
          (\<forall>u. cache_last_update s (cache_key g d) = Some u \<longrightarrow> \<not> n1 - u < cache_timeout)"
    with s' None show ?thesis by simp
  qed
qed

lemma calls_for_same: "api_calls s' = api_calls s \<Longrightarrow> calls_for g d s' = calls_for g d s"
  by (simp add: calls_for_def)

lemma calls_for_snoc:
  "api_calls s' = api_calls s @ [c] \<Longrightarrow>
   calls_for g d s' = calls_for g d s + (if c = (g, d) then 1 else 0)"
  by (simp add: calls_for_def)

lemma lookup_step:
  assumes "get_cached_schedule s g' d' n1 n2 = (v, s')"
  shows "calls_for g d s' = calls_for g d s \<or>
         (calls_for g d s' = calls_for g d s + 1 \<and> (g', d') = (g, d) \<and>
          cache_last_update s' (cache_key g d) = Some n2)"
  using get_cached_schedule_cases[OF assms]
proof
  assume "api_calls s' = api_calls s \<and> cache_last_update s' = cache_last_update s"
  then show ?thesis using calls_for_same[of s' s g d] by simp
next
  assume a: "api_calls s' = api_calls s @ [(g', d')] \<and>
          cache_last_update s' = (cache_last_update s)(cache_key g' d' \<mapsto> n2) \<and>
          map_of (lru s) (g', d') = None \<and>
          (\<forall>u. cache_last_update s (cache_key g' d') = Some u \<longrightarrow> \<not> n1 - u < cache_timeout)"
  then have c: "calls_for g d s' = calls_for g d s + (if (g', d') = (g, d) then 1 else 0)"
    using calls_for_snoc[of s' s "(g', d')" g d] by simp
  show ?thesis
  proof (cases "(g', d') = (g, d)")
    case True
    with a c show ?thesis by simp
  next
    case False
    with c have "calls_for g d s' = calls_for g d s" by auto
    then show ?thesis by simp
  qed
qed

lemma lookup_step_stamped:
  assumes "get_cached_schedule s g' d' n1 n2 = (v, s')"
    and "stamped_since s (cache_key g d) t" and "t \<le> n2" and "n1 - t < cache_timeout"
  shows "calls_for g d s' = calls_for g d s \<and> stamped_since s' (cache_key g d) t"
proof -
  from assms(2) obtain u where u: "cache_last_update s (cache_key g d) = Some u" "t \<le> u"
    by (auto simp: stamped_since_def split: option.splits)
  from get_cached_schedule_cases[OF assms(1)] show ?thesis
  proof
    assume "api_calls s' = api_calls s \<and> cache_last_update s' = cache_last_update s"
    with assms(2) calls_for_same[of s' s g d] show ?thesis by (simp add: stamped_since_def)
  next
    assume a: "api_calls s' = api_calls s @ [(g', d')] \<and>
          cache_last_update s' = (cache_last_update s)(cache_key g' d' \<mapsto> n2) \<and>
          map_of (lru s) (g', d') = None \<and>
          (\<forall>u. cache_last_update s (cache_key g' d') = Some u \<longrightarrow> \<not> n1 - u < cache_timeout)"
    have ne: "cache_key g' d' \<noteq> cache_key g d"
    proof
      assume "cache_key g' d' = cache_key g d"
      with a u have "\<not> n1 - u < cache_timeout" by simp
      with u(2) assms(4) show False by linarith
    qed
    then have "(g', d') \<noteq> (g, d)" by auto
    with a calls_for_snoc[of s' s "(g', d')" g d] have c: "calls_for g d s' = calls_for g d s" by simp
    from a ne u have "stamped_since s' (cache_key g d) t" by (simp add: stamped_since_def)
    with c show ?thesis by simp
  qed
qed

lemma lookups_stamped:
  assumes "stamped_since s (cache_key g d) t"
    and "\<forall>(g', d', n1, n2) \<in> set ops. t \<le> n2 \<and> n1 - t < cache_timeout"
  shows "calls_for g d (lookups s ops) = calls_for g d s \<and> stamped_since (lookups s ops) (cache_key g d) t"
  using assms
proof (induction ops arbitrary: s)
  case Nil
  then show ?case by simp
next
  case (Cons op ops)
  obtain g' d' n1 n2 where op: "op = (g', d', n1, n2)" by (cases op) auto
  obtain v s' where st: "get_cached_schedule s g' d' n1 n2 = (v, s')"
    by (cases "get_cached_schedule s g' d' n1 n2") auto
  from Cons.prems(2) op have b: "t \<le> n2" "n1 - t < cache_timeout" by auto
  from lookup_step_stamped[OF st Cons.prems(1) b]
  have 1: "calls_for g d s' = calls_for g d s" and 2: "stamped_since s' (cache_key g d) t" by auto
  from Cons.prems(2) have r: "\<forall>(g', d', n1, n2) \<in> set ops. t \<le> n2 \<and> n1 - t < cache_timeout" by simp
  from Cons.IH[OF 2 r] 1 op st show ?case by simp
qed

lemma lookups_at_most_once:
  assumes "\<forall>(g', d', n1, n2) \<in> set ops. t \<le> n2 \<and> n1 - t < cache_timeout"
  shows "calls_for g d (lookups s ops) = calls_for g d s \<or>
         (calls_for g d (lookups s ops) = calls_for g d s + 1 \<and>
          stamped_since (lookups s ops) (cache_key g d) t)"
  using assms
proof (induction ops arbitrary: s)
  case Nil
  then show ?case by simp
next
  case (Cons op ops)
  obtain g' d' n1 n2 where op: "op = (g', d', n1, n2)" by (cases op) auto
  obtain v s' where st: "get_cached_schedule s g' d' n1 n2 = (v, s')"
    by (cases "get_cached_schedule s g' d' n1 n2") auto
  from Cons.prems op have b: "t \<le> n2" "n1 - t < cache_timeout" by auto
  from Cons.prems have r: "\<forall>(g', d', n1, n2) \<in> set ops. t \<le> n2 \<and> n1 - t < cache_timeout" by simp
  have l: "lookups s (op # ops) = lookups s' ops" using op st by simp
  from lookup_step[OF st, of g d] show ?case
  proof
    assume "calls_for g d s' = calls_for g d s"
    with Cons.IH[OF r, of s'] l show ?thesis by simp
  next
    assume a: "calls_for g d s' = calls_for g d s + 1 \<and> (g', d') = (g, d) \<and>
          cache_last_update s' (cache_key g d) = Some n2"
    with b have "stamped_since s' (cache_key g d) t" by (simp add: stamped_since_def)
    from lookups_stamped[OF this r] a l show ?thesis by simp
  qed
qed

lemma lookups_append: "lookups s (xs @ ys) = lookups (lookups s xs) ys"
  by (induction xs arbitrary: s) auto

lemma cache_timeout_pos: "0 < cache_timeout"
  by (simp add: cache_timeout_def)

lemma lookup_stamped_no_call:
  assumes "get_cached_schedule s g d n1 n2 = (v, s')"
    and "stamped_since s (cache_key g d) t" and "n1 - t < cache_timeout"
  shows "api_calls s' = api_calls s"
proof -
  from assms(2) obtain u where u: "cache_last_update s (cache_key g d) = Some u" "t \<le> u"
    by (auto simp: stamped_since_def split: option.splits)
  from u(2) assms(3) have f: "n1 - u < cache_timeout" by linarith
  from get_cached_schedule_cases[OF assms(1)] u(1) f show ?thesis by blast
qed

lemma lru_after_lookup:
  assumes "get_cached_schedule s g d n1 n2 = (v, s')"
  shows "map_of (lru s') (g, d) = Some v"
proof (cases "map_of (lru s) (g, d)")
  case (Some w)
  with assms show ?thesis by (auto simp: get_cached_schedule_def)
next
  case None
  obtain v0 s0 where b: "get_cached_schedule_body s g d n1 n2 = (v0, s0)"
    by (cases "get_cached_schedule_body s g d n1 n2") auto
  with None assms have "v = v0" and "lru s' = take lru_maxsize (((g, d), v0) # lru s0)"
    by (auto simp: get_cached_schedule_def)
  then show ?thesis by (simp add: lru_maxsize_def)
qed

lemma lookup_hit:
  assumes "map_of (lru s) (g, d) = Some v"
  shows "fst (get_cached_schedule s g d n1 n2) = v"
    and "api_calls (snd (get_cached_schedule s g d n1 n2)) = api_calls s"
  using assms by (simp_all add: get_cached_schedule_def)

subsection \<open>Eviction from the lru table\<close>

lemma body_keeps_lru: "lru (snd (get_cached_schedule_body s g d n1 n2)) = lru s"
proof -
  obtain v s' where b: "get_cached_schedule_body s g d n1 n2 = (v, s')"
    by (cases "get_cached_schedule_body s g d n1 n2") auto
  from body_cases[OF b] have "lru s' = lru s" by auto
  with b show ?thesis by simp
qed

lemma miss_lru_keys:
  assumes "(g, d) \<notin> fst ` set (lru s)"
  shows "map fst (lru (snd (get_cached_schedule s g d n1 n2))) =
           take lru_maxsize ((g, d) # map fst (lru s))"
proof -
  from assms have m: "map_of (lru s) (g, d) = None" by (simp add: map_of_eq_None_iff)
  obtain v s' where b: "get_cached_schedule_body s g d n1 n2 = (v, s')"
    by (cases "get_cached_schedule_body s g d n1 n2") auto
  from body_keeps_lru[of s g d n1 n2] b have "lru s' = lru s" by simp
  with m b have "lru (snd (get_cached_schedule s g d n1 n2)) =
      take lru_maxsize (((g, d), v) # lru s)"
    by (simp add: get_cached_schedule_def)
  moreover have "map fst (take lru_maxsize (((g, d), v) # lru s)) =
      take lru_maxsize (map fst (((g, d), v) # lru s))"
    by (rule take_map[symmetric])
  ultimately show ?thesis by simp
qed

lemma take_append_take: "take n (xs @ take n ys) = take n (xs @ ys)"
  by (simp add: min_def)

lemma lru_keys_after_misses:
  assumes "distinct (map key_of ops)" and "\<forall>l \<in> set ops. key_of l \<notin> fst ` set (lru s)"
    and "length (lru s) \<le> lru_maxsize"
  shows "map fst (lru (lookups s ops)) = take lru_maxsize (rev (map key_of ops) @ map fst (lru s))"
  using assms
proof (induction ops arbitrary: s)
  case Nil
  then show ?case by simp
next
  case (Cons l ops)
  obtain g d n1 n2 where l: "l = (g, d, n1, n2)" by (cases l) auto
  let ?s1 = "snd (get_cached_schedule s g d n1 n2)"
  from Cons.prems(2) l have "(g, d) \<notin> fst ` set (lru s)" by (simp add: key_of_def)
  from miss_lru_keys[OF this]
  have k1: "map fst (lru ?s1) = take lru_maxsize ((g, d) # map fst (lru s))" .
  have "\<forall>l' \<in> set ops. key_of l' \<notin> fst ` set (lru ?s1)"
  proof
    fix l'
    assume m: "l' \<in> set ops"
    with Cons.prems(1) l have ne: "key_of l' \<noteq> (g, d)" by (auto simp: key_of_def)
    from Cons.prems(2) m have "key_of l' \<notin> set (map fst (lru s))" by simp
    with ne have "key_of l' \<notin> set ((g, d) # map fst (lru s))" by simp
    then have "key_of l' \<notin> set (take lru_maxsize ((g, d) # map fst (lru s)))"
      using set_take_subset[of lru_maxsize "(g, d) # map fst (lru s)"] by blast
    with k1 have "key_of l' \<notin> set (map fst (lru ?s1))" by simp
    then show "key_of l' \<notin> fst ` set (lru ?s1)" by simp
  qed
  moreover from Cons.prems(1) have "distinct (map key_of ops)" by simp
  moreover have "length (lru ?s1) \<le> lru_maxsize"
  proof -
    have "length (map fst (lru ?s1)) \<le> lru_maxsize" unfolding k1 by simp
    then show ?thesis by simp
  qed
  ultimately have "map fst (lru (lookups ?s1 ops)) =
      take lru_maxsize (rev (map key_of ops) @ map fst (lru ?s1))"
    using Cons.IH[of ?s1] by blast
  also have "\<dots> = take lru_maxsize (rev (map key_of ops) @ (g, d) # map fst (lru s))"
    unfolding k1 by (rule take_append_take)
  finally have "map fst (lru (lookups ?s1 ops)) =
      take lru_maxsize (rev (map key_of ops) @ (g, d) # map fst (lru s))" .
  moreover have "key_of l = (g, d)" by (simp add: l key_of_def)
  moreover have "lookups s (l # ops) = lookups ?s1 ops" by (simp add: l)
  ultimately show ?case by simp
qed

lemma lookups_keep:
  assumes "\<forall>l \<in> set ops. cache_key (fst l) (fst (snd l)) \<noteq> cache_key g d"
  shows "cache_last_update (lookups s ops) (cache_key g d) = cache_last_update s (cache_key g d)
       \<and> calls_for g d (lookups s ops) = calls_for g d s"
  using assms
proof (induction ops arbitrary: s)
  case Nil
  then show ?case by simp
next
  case (Cons l ops)
  obtain g' d' n1 n2 where l: "l = (g', d', n1, n2)" by (cases l) auto
  obtain v s' where st: "get_cached_schedule s g' d' n1 n2 = (v, s')"
    by (cases "get_cached_schedule s g' d' n1 n2") auto
  from Cons.prems l have ne: "cache_key g' d' \<noteq> cache_key g d" by simp
  then have nk: "(g', d') \<noteq> (g, d)" by auto
  from get_cached_schedule_cases[OF st] ne
  have 1: "cache_last_update s' (cache_key g d) = cache_last_update s (cache_key g d)" by auto
  from lookup_step[OF st, of g d] nk have 2: "calls_for g d s' = calls_for g d s" by auto
  from Cons.prems have "\<forall>l \<in> set ops. cache_key (fst l) (fst (snd l)) \<noteq> cache_key g d" by simp
  from Cons.IH[OF this, of s'] 1 2 l st show ?case by simp
qed


lemma expired_miss_fetches:
  assumes "(g, d) \<notin> fst ` set (lru s)"
    and "cache_last_update s (cache_key g d) = Some u" and "\<not> n1 - u < cache_timeout"
  shows "fst (get_cached_schedule s g d n1 n2) = Coroutine g d"
    and "api_calls (snd (get_cached_schedule s g d n1 n2)) = api_calls s @ [(g, d)]"
proof -
  from assms(1) have m: "map_of (lru s) (g, d) = None" by (simp add: map_of_eq_None_iff)
  obtain v s' where b: "get_cached_schedule_body s g d n1 n2 = (v, s')"
    by (cases "get_cached_schedule_body s g d n1 n2") auto
  from body_cases[OF b] assms(2,3) have "v = Coroutine g d" "api_calls s' = api_calls s @ [(g, d)]"
    by auto
  with m b show "fst (get_cached_schedule s g d n1 n2) = Coroutine g d"
    and "api_calls (snd (get_cached_schedule s g d n1 n2)) = api_calls s @ [(g, d)]"
    by (simp_all add: get_cached_schedule_def)
qed

lemma fresh_keeps:
  assumes "cache_last_update s (cache_key g d) = Some u" and "n1 - u < cache_timeout"
  shows "api_calls (snd (get_cached_schedule s g d n1 n2)) = api_calls s"
    and "cache_last_update (snd (get_cached_schedule s g d n1 n2)) = cache_last_update s"
proof -
  obtain v s' where st: "get_cached_schedule s g d n1 n2 = (v, s')"
    by (cases "get_cached_schedule s g d n1 n2") auto
  from get_cached_schedule_cases[OF st] assms
  have "api_calls s' = api_calls s \<and> cache_last_update s' = cache_last_update s" by blast
  with st show "api_calls (snd (get_cached_schedule s g d n1 n2)) = api_calls s"
    and "cache_last_update (snd (get_cached_schedule s g d n1 n2)) = cache_last_update s"
    by simp_all
qed

lemma filler_groups_length: "length filler_groups = 100"
  by (simp add: filler_groups_def digits_def)

lemma filler_groups_distinct: "distinct filler_groups"
proof -
  have "distinct digits" by (simp add: digits_def)
  then have "distinct (List.product digits digits)" by (simp add: distinct_product)
  moreover have "inj_on (\<lambda>(a, b). [a, b]) (set (List.product digits digits))"
    by (auto simp: inj_on_def)
  ultimately show ?thesis by (simp add: filler_groups_def distinct_map)
qed

lemma filler_groups_two: "g \<in> set filler_groups \<Longrightarrow> length g = 2"
  by (auto simp: filler_groups_def)

lemma filler_cache_key: "g \<in> set filler_groups \<Longrightarrow> cache_key g d \<noteq> cache_key ''305'' d'"
proof
  assume g: "g \<in> set filler_groups" and e: "cache_key g d = cache_key ''305'' d'"
  from filler_groups_two[OF g] obtain a b where "g = [a, b]"
    by (auto simp: length_Suc_conv numeral_2_eq_2)
  then have "cache_key g d ! 2 = CHR ''_''" by (simp add: cache_key_def)
  moreover have "cache_key ''305'' d' ! 2 = CHR ''5''" by (simp add: cache_key_def)
  ultimately show False using e by simp
qed

lemma filler_keys:
  "distinct (map key_of (map (\<lambda>g. (g, d, n1, n2)) filler_groups))"
  "length (map key_of (map (\<lambda>g. (g, d, n1, n2)) filler_groups)) = 100"
  "k \<in> set (map key_of (map (\<lambda>g. (g, d, n1, n2)) filler_groups)) \<Longrightarrow>
     snd k = d \<and> fst k \<in> set filler_groups"
proof -
  have m: "map key_of (map (\<lambda>g. (g, d, n1, n2)) filler_groups) = map (\<lambda>g. (g, d)) filler_groups"
    by (simp add: key_of_def comp_def)
  show "distinct (map key_of (map (\<lambda>g. (g, d, n1, n2)) filler_groups))"
    unfolding m using filler_groups_distinct by (simp add: distinct_map inj_on_def)
  show "length (map key_of (map (\<lambda>g. (g, d, n1, n2)) filler_groups)) = 100"
    by (simp add: filler_groups_length)
  show "snd k = d \<and> fst k \<in> set filler_groups"
    if "k \<in> set (map key_of (map (\<lambda>g. (g, d, n1, n2)) filler_groups))"
    using that unfolding m by auto
qed

lemma fillers_evict:
  assumes "length (lru s) \<le> lru_maxsize"
    and "\<forall>k \<in> fst ` set (lru s). snd k \<noteq> d \<or> fst k \<notin> set filler_groups"
  shows "(''305'', d') \<notin> fst ` set (lru (lookups s (map (\<lambda>g. (g, d, n1, n2)) filler_groups)))"
proof -
  let ?ops = "map (\<lambda>g. (g, d, n1, n2)) filler_groups"
  have "\<forall>l \<in> set ?ops. key_of l \<notin> fst ` set (lru s)"
  proof
    fix l
    assume "l \<in> set ?ops"
    then have "key_of l \<in> key_of ` set ?ops" by (rule imageI)
    then have "key_of l \<in> set (map key_of ?ops)" by (simp only: set_map)
    from filler_keys(3)[OF this] assms(2) show "key_of l \<notin> fst ` set (lru s)" by blast
  qed
  from lru_keys_after_misses[OF filler_keys(1) this assms(1)]
  have "map fst (lru (lookups s ?ops)) = take lru_maxsize (rev (map key_of ?ops) @ map fst (lru s))" .
  also have "\<dots> = rev (map key_of ?ops)"
    using filler_keys(2)[of d n1 n2] by (simp add: lru_maxsize_def)
  finally have k: "set (map fst (lru (lookups s ?ops))) = set (map key_of ?ops)" by simp
  have "(''305'', d') \<notin> set (map key_of ?ops)"
  proof
    assume "(''305'', d') \<in> set (map key_of ?ops)"
    from filler_keys(3)[OF this] have "''305'' \<in> set filler_groups" by simp
    from filler_groups_two[OF this] show False by simp
  qed
  with k show ?thesis by simp
qed

lemma fillers_keep_305:
  "cache_last_update (lookups s (map (\<lambda>g. (g, d, n1, n2)) filler_groups)) (cache_key ''305'' d')
     = cache_last_update s (cache_key ''305'' d')"
proof -
  have "\<forall>l \<in> set (map (\<lambda>g. (g, d, n1, n2)) filler_groups).
          cache_key (fst l) (fst (snd l)) \<noteq> cache_key ''305'' d'"
    using filler_cache_key by auto
  from lookups_keep[OF this] show ?thesis by blast
qed

lemma lru_bounded: "length (lru (snd (get_cached_schedule s g d n1 n2))) \<le> max (length (lru s)) lru_maxsize"
proof (cases "map_of (lru s) (g, d)")
  case None
  obtain v s' where b: "get_cached_schedule_body s g d n1 n2 = (v, s')"
    by (cases "get_cached_schedule_body s g d n1 n2") auto
  with None show ?thesis by (simp add: get_cached_schedule_def)
next
  case (Some v)
  then have "(g, d) \<in> fst ` set (lru s)" by (metis map_of_eq_None_iff option.distinct(1))
  then obtain e where e: "e \<in> set (lru s)" "fst e = (g, d)" by auto
  then have "length (filter (\<lambda>e. fst e \<noteq> (g, d)) (lru s)) < length (lru s)"
    by (intro length_filter_less[of e]) auto
  with Some show ?thesis by (simp add: get_cached_schedule_def)
qed

lemma lookups_lru_bounded:
  "length (lru s) \<le> lru_maxsize \<Longrightarrow> length (lru (lookups s ops)) \<le> lru_maxsize"
proof (induction ops arbitrary: s)
  case Nil
  then show ?case by simp
next
  case (Cons l ops)
  obtain g d n1 n2 where l: "l = (g, d, n1, n2)" by (cases l) auto
  from lru_bounded[of s g d n1 n2] Cons.prems
  have "length (lru (snd (get_cached_schedule s g d n1 n2))) \<le> lru_maxsize" by simp
  from Cons.IH[OF this] l show ?case by simp
qed

text \<open>
  C7 as stated fails in its second half. Group 305 was fetched at time 1 and
  pushed out of the lru table. The first of the two lookups comes just before
  the five minutes are over and is answered without a call; a hundred other
  keys push the entry out again; the second lookup, 15 microseconds after the
  first, finds the stamp expired and is the one that calls
  \<^verbatim>\<open>api.get_schedule\<close>.
\<close>

theorem second_lookup_fetches_counterexample:
  "api_calls (lookups empty_cache (stale_history @ [first_lookup]))
     = api_calls (lookups empty_cache stale_history)
   \<and> fst (get_cached_schedule (lookups empty_cache (stale_history @ first_lookup # in_between))
            ''305'' ''20240102'' 300000005 300000005)
     = Coroutine ''305'' ''20240102''
   \<and> api_calls (lookups empty_cache (stale_history @ first_lookup # in_between @ [second_lookup]))
     = api_calls (lookups empty_cache (stale_history @ first_lookup # in_between))
       @ [(''305'', ''20240102'')]
   \<and> (300000005 :: int) - 299999990 < cache_timeout"
proof -
  let ?g = "''305''" and ?d = "''20240102''"
  let ?ck = "cache_key ?g ?d"
  let ?sA = "snd (get_cached_schedule empty_cache ?g ?d 0 1)"
  let ?f1 = "map (\<lambda>g. (g, ''20240102'', 2 :: int, 2 :: int)) filler_groups"
  let ?sB = "lookups ?sA ?f1"
  let ?sC = "snd (get_cached_schedule ?sB ?g ?d 299999990 299999990)"
  let ?sD = "lookups ?sC in_between"
  have hist: "lookups empty_cache stale_history = ?sB"
    by (simp add: stale_history_def)
  have lruA: "lru ?sA = [((?g, ?d), Coroutine ?g ?d)]" by code_simp
  have stA: "cache_last_update ?sA ?ck = Some 1" by code_simp
  have "\<forall>k \<in> fst ` set (lru ?sA). snd k \<noteq> ''20240102'' \<or> fst k \<notin> set filler_groups"
    using filler_groups_two[of ?g] by (auto simp: lruA)
  moreover have "length (lru ?sA) \<le> lru_maxsize" by (simp add: lruA lru_maxsize_def)
  ultimately have outB: "(?g, ?d) \<notin> fst ` set (lru ?sB)" by (rule fillers_evict[rotated])
  have stB: "cache_last_update ?sB ?ck = Some 1"
    using fillers_keep_305[of ?sA "''20240102''" 2 2 ?d] stA by simp
  have lenB: "length (lru ?sB) \<le> lru_maxsize"
    by (rule lookups_lru_bounded) (simp add: lruA lru_maxsize_def)
  have fresh: "(299999990 :: int) - 1 < cache_timeout" by (simp add: cache_timeout_def)
  have apiC: "api_calls ?sC = api_calls ?sB" by (rule fresh_keeps(1)[OF stB fresh])
  have stC: "cache_last_update ?sC ?ck = Some 1"
    using fresh_keeps(2)[OF stB fresh, of 299999990] stB by simp
  have keysC: "map fst (lru ?sC) = take lru_maxsize ((?g, ?d) # map fst (lru ?sB))"
    by (rule miss_lru_keys[OF outB])
  have lenC: "length (lru ?sC) \<le> lru_maxsize"
  proof -
    have "length (map fst (lru ?sC)) \<le> lru_maxsize" unfolding keysC by simp
    then show ?thesis by simp
  qed
  have keysB: "\<forall>k \<in> fst ` set (lru ?sB). snd k = ''20240102''"
  proof -
    have "\<forall>l \<in> set ?f1. key_of l \<notin> fst ` set (lru ?sA)"
    proof
      fix l
      assume "l \<in> set ?f1"
      then have "key_of l \<in> key_of ` set ?f1" by (rule imageI)
      then have "key_of l \<in> set (map key_of ?f1)" by (simp only: set_map)
      from filler_keys(3)[OF this] filler_groups_two[of ?g]
      show "key_of l \<notin> fst ` set (lru ?sA)" by (auto simp: lruA)
    qed
    from lru_keys_after_misses[OF filler_keys(1) this] lruA
    have "map fst (lru ?sB) = take lru_maxsize (rev (map key_of ?f1) @ [(?g, ?d)])"
      by (simp add: lru_maxsize_def)
    then have "set (map fst (lru ?sB)) \<subseteq> set (map key_of ?f1) \<union> {(?g, ?d)}"
      using set_take_subset[of lru_maxsize "rev (map key_of ?f1) @ [(?g, ?d)]"] by auto
    then show ?thesis using filler_keys(3)[of _ "''20240102''" 2 2] by fastforce
  qed
  have "\<forall>k \<in> fst ` set (lru ?sC). snd k \<noteq> ''20240103'' \<or> fst k \<notin> set filler_groups"
  proof
    fix k
    assume "k \<in> fst ` set (lru ?sC)"
    then have "k \<in> set (map fst (lru ?sC))" by simp
    then have "k \<in> set ((?g, ?d) # map fst (lru ?sB))"
      unfolding keysC using set_take_subset[of lru_maxsize "(?g, ?d) # map fst (lru ?sB)"] by blast
    with keysB have "snd k = ''20240102''" by auto
    then show "snd k \<noteq> ''20240103'' \<or> fst k \<notin> set filler_groups" by simp
  qed
  from fillers_evict[OF lenC this]
  have outD: "(?g, ?d) \<notin> fst ` set (lru ?sD)" by (simp add: in_between_def)
  have stD: "cache_last_update ?sD ?ck = Some 1"
    using fillers_keep_305[of ?sC "''20240103''" 299999995 299999995 ?d] stC
    by (simp add: in_between_def)
  have expired: "\<not> (300000005 :: int) - 1 < cache_timeout" by (simp add: cache_timeout_def)
  have sC: "lookups empty_cache (stale_history @ [first_lookup]) = ?sC"
    by (simp add: lookups_append hist first_lookup_def)
  have sD: "lookups empty_cache (stale_history @ first_lookup # in_between) = ?sD"
    by (simp add: lookups_append hist first_lookup_def)
  have sE: "lookups empty_cache (stale_history @ first_lookup # in_between @ [second_lookup]) =
      snd (get_cached_schedule ?sD ?g ?d 300000005 300000005)"
    using lookups_append[of empty_cache "stale_history @ first_lookup # in_between" "[second_lookup]"] sD
    by (simp add: second_lookup_def)
  have 1: "api_calls (lookups empty_cache (stale_history @ [first_lookup]))
     = api_calls (lookups empty_cache stale_history)"
    unfolding sC hist by (rule apiC)
  have 2: "fst (get_cached_schedule (lookups empty_cache (stale_history @ first_lookup # in_between))
            ?g ?d 300000005 300000005) = Coroutine ?g ?d"
    unfolding sD by (rule expired_miss_fetches(1)[OF outD stD expired])
  have 3: "api_calls (lookups empty_cache (stale_history @ first_lookup # in_between @ [second_lookup]))
     = api_calls (lookups empty_cache (stale_history @ first_lookup # in_between)) @ [(?g, ?d)]"
    unfolding sE sD by (rule expired_miss_fetches(2)[OF outD stD expired])
  have 4: "(300000005 :: int) - 299999990 < cache_timeout" by (simp add: cache_timeout_def)
  from 1 2 3 4 show ?thesis by blast
qed

text \<open>
  C7, as the code has it. Take any state of the cache, a lookup of \<open>(g, d)\<close>
  at time \<open>t1\<close>, any lookups of any keys after it, and a second lookup of
  \<open>(g, d)\<close> at a time \<open>t2\<close> less than \<open>cache_timeout\<close> (five minutes) after
  \<open>t1\<close>. Then \<^verbatim>\<open>api.get_schedule\<close> is called for \<open>(g, d)\<close> at most once in
  the whole run; if the first lookup called it, the second does not call it;
  and when the second lookup follows the first directly it calls nothing and
  returns the value the first one returned.
\<close>

theorem get_cached_schedule_fetches_once:
  assumes "t1 \<le> t1'"
    and "\<forall>(g', d', n1, n2) \<in> set mids. t1 \<le> n2 \<and> n1 \<le> t2"
    and "t2 - t1 < cache_timeout"
  shows "calls_for g d (lookups s ((g, d, t1, t1') # mids @ [(g, d, t2, t2')])) \<le> calls_for g d s + 1
    \<and> (calls_for g d (lookups s [(g, d, t1, t1')]) = calls_for g d s + 1 \<longrightarrow>
         api_calls (lookups s ((g, d, t1, t1') # mids @ [(g, d, t2, t2')])) =
         api_calls (lookups s ((g, d, t1, t1') # mids)))
    \<and> api_calls (lookups s [(g, d, t1, t1'), (g, d, t2, t2')]) = api_calls (lookups s [(g, d, t1, t1')])
    \<and> fst (get_cached_schedule (lookups s [(g, d, t1, t1')]) g d t2 t2') =
       fst (get_cached_schedule s g d t1 t1')"
proof (intro conjI impI)
  let ?c1 = "(g, d, t1, t1')" and ?c2 = "(g, d, t2, t2')"
  let ?s2 = "lookups s (?c1 # mids)"
  obtain v1 s1 where c1: "get_cached_schedule s g d t1 t1' = (v1, s1)"
    by (cases "get_cached_schedule s g d t1 t1'") auto
  obtain v3 s3 where c2: "get_cached_schedule ?s2 g d t2 t2' = (v3, s3)"
    by (cases "get_cached_schedule ?s2 g d t2 t2'") auto
  have s1: "lookups s [?c1] = s1" using c1 by simp
  have s2: "?s2 = lookups s1 mids" using c1 by simp
  have s3: "lookups s (?c1 # mids @ [?c2]) = s3"
    using lookups_append[of s "?c1 # mids" "[?c2]"] c2 by simp
  have mids: "\<forall>(g', d', n1, n2) \<in> set mids. t1 \<le> n2 \<and> n1 - t1 < cache_timeout"
    using assms(2,3) by fastforce
  have ops: "\<forall>(g', d', n1, n2) \<in> set (?c1 # mids). t1 \<le> n2 \<and> n1 - t1 < cache_timeout"
    using mids assms(1) cache_timeout_pos by simp
  show "calls_for g d (lookups s (?c1 # mids @ [?c2])) \<le> calls_for g d s + 1"
    using lookups_at_most_once[OF ops, of g d s]
  proof
    assume "calls_for g d ?s2 = calls_for g d s"
    with lookup_step[OF c2, of g d] s3 show ?thesis by auto
  next
    assume a: "calls_for g d ?s2 = calls_for g d s + 1 \<and> stamped_since ?s2 (cache_key g d) t1"
    then have "api_calls s3 = api_calls ?s2"
      using lookup_stamped_no_call[OF c2 _ assms(3)] by blast
    then have "calls_for g d s3 = calls_for g d ?s2" by (rule calls_for_same)
    with a s3 show ?thesis by simp
  qed
  show "api_calls (lookups s (?c1 # mids @ [?c2])) = api_calls ?s2"
    if f: "calls_for g d (lookups s [?c1]) = calls_for g d s + 1"
  proof -
    from lookup_step[OF c1, of g d] f s1
    have "cache_last_update s1 (cache_key g d) = Some t1'" by auto
    with assms(1) have "stamped_since s1 (cache_key g d) t1" by (simp add: stamped_since_def)
    from lookups_stamped[OF this mids] s2 have "stamped_since ?s2 (cache_key g d) t1" by simp
    from lookup_stamped_no_call[OF c2 this assms(3)] s3 show ?thesis by simp
  qed
  have hit: "map_of (lru s1) (g, d) = Some v1" by (rule lru_after_lookup[OF c1])
  show "api_calls (lookups s [?c1, ?c2]) = api_calls (lookups s [?c1])"
    using lookup_hit(2)[OF hit, of t2 t2'] c1 by simp
  show "fst (get_cached_schedule (lookups s [?c1]) g d t2 t2') = fst (get_cached_schedule s g d t1 t1')"
    using lookup_hit(1)[OF hit, of t2 t2'] c1 by simp
qed

theorem get_cached_schedule_fetches_once_witness:
  "calls_for ''42'' ''20240102''
     (lookups empty_cache [(''42'', ''20240102'', 0, 1), (''13'', ''20240102'', 10, 11),
                           (''42'', ''20240102'', 299999999, 300000000)])
     \<le> calls_for ''42'' ''20240102'' empty_cache + 1
   \<and> api_calls (lookups empty_cache [(''42'', ''20240102'', 0, 1), (''13'', ''20240102'', 10, 11),
                           (''42'', ''20240102'', 299999999, 300000000)])
       = [(''42'', ''20240102''), (''13'', ''20240102'')]
   \<and> fst (get_cached_schedule (lookups empty_cache [(''42'', ''20240102'', 0, 1)])
            ''42'' ''20240102'' 299999999 300000000)
       = Coroutine ''42'' ''20240102''"
proof -
  have h1: "(0::int) \<le> 1" by simp
  have h2: "\<forall>(g', d', n1, n2) \<in> set [(''13'', ''20240102'', 10::int, 11::int)]. 0 \<le> n2 \<and> n1 \<le> 299999999"
    by simp
  have h3: "(299999999::int) - 0 < cache_timeout" by (simp add: cache_timeout_def)
  note th = get_cached_schedule_fetches_once[OF h1 h2 h3, of "''42''" "''20240102''" empty_cache 300000000]
  have e1: "api_calls (lookups empty_cache [(''42'', ''20240102'', 0, 1), (''13'', ''20240102'', 10, 11)])
       = [(''42'', ''20240102''), (''13'', ''20240102'')]"
    by code_simp
  have e2: "calls_for ''42'' ''20240102'' (lookups empty_cache [(''42'', ''20240102'', 0, 1)])
       = calls_for ''42'' ''20240102'' empty_cache + 1"
    by code_simp
  have e3: "fst (get_cached_schedule empty_cache ''42'' ''20240102'' 0 1) = Coroutine ''42'' ''20240102''"
    by code_simp
  from th e1 e2 e3 show ?thesis by simp
qed

section \<open>Facts about the drain loop\<close>

lemma call_times_prefix:
  "call_times (process_message_queue ps (clock, called, b)) =
     called @ call_times (process_message_queue ps (clock, [], b))"
proof (induction ps arbitrary: clock called b)
  case Nil
  then show ?case by (simp add: call_times_def)
next
  case (Cons p ps)
  show ?case
  proof (cases "message_queue b")
    case Nil
    then show ?thesis by (simp add: call_times_def)
  next
    case (Cons m rest)
    obtain message chat_id where m: "m = (message, chat_id)" by (cases m) auto
    show ?thesis
      using Cons m Cons.IH[of _ "called @ [clock + wait_ms p]"] Cons.IH[of _ "[clock + wait_ms p]"]
      by (simp add: Let_def)
  qed
qed

lemma call_times_step:
  assumes "message_queue b = m # rest"
  shows "\<exists>c' b'. call_times (process_message_queue (p # ps) (clock, [], b)) =
                    (clock + wait_ms p) # call_times (process_message_queue ps (c', [], b')) \<and>
                  clock + wait_ms p + (if send_ok p then min_send_delay_ms else 0) \<le> c'"
proof -
  obtain message chat_id where m: "m = (message, chat_id)" by (cases m) auto
  let ?b1 = "b\<lparr>message_queue := rest, outbound := outbound b @ [(chat_id, message)]\<rparr>"
  show ?thesis
  proof (cases "send_ok p")
    case True
    let ?c = "clock + wait_ms p + send_ms p + min_send_delay_ms + oversleep_ms p"
    have "call_times (process_message_queue (p # ps) (clock, [], b)) =
            (clock + wait_ms p) # call_times (process_message_queue ps (?c, [], ?b1))"
      using assms m True call_times_prefix[of ps ?c "[clock + wait_ms p]" ?b1]
      by (simp add: Let_def)
    moreover have "clock + wait_ms p + (if send_ok p then min_send_delay_ms else 0) \<le> ?c"
      using True by simp
    ultimately show ?thesis by blast
  next
    case False
    let ?c = "clock + wait_ms p + send_ms p"
    let ?b2 = "?b1\<lparr>bot_logs := bot_logs ?b1 @ [Queue_error]\<rparr>"
    have "call_times (process_message_queue (p # ps) (clock, [], b)) =
            (clock + wait_ms p) # call_times (process_message_queue ps (?c, [], ?b2))"
      using assms m False call_times_prefix[of ps ?c "[clock + wait_ms p]" ?b2]
      by (simp add: Let_def)
    moreover have "clock + wait_ms p + (if send_ok p then min_send_delay_ms else 0) \<le> ?c"
      using False by simp
    ultimately show ?thesis by blast
  qed
qed

lemma call_times_not_before_clock:
  "t \<in> set (call_times (process_message_queue ps (clock, [], b))) \<Longrightarrow> clock \<le> t"
proof (induction ps arbitrary: clock b t)
  case Nil
  then show ?case by (simp add: call_times_def)
next
  case (Cons p ps)
  show ?case
  proof (cases "message_queue b")
    case Nil
    with Cons.prems show ?thesis by (simp add: call_times_def)
  next
    case (Cons m rest)
    from call_times_step[OF Cons, of p ps clock] obtain c' b' where
      eq: "call_times (process_message_queue (p # ps) (clock, [], b)) =
             (clock + wait_ms p) # call_times (process_message_queue ps (c', [], b'))"
      and le: "clock + wait_ms p + (if send_ok p then min_send_delay_ms else 0) \<le> c'"
      by blast
    from Cons.prems eq have "t = clock + wait_ms p \<or>
        t \<in> set (call_times (process_message_queue ps (c', [], b')))" by simp
    then show ?thesis
    proof
      assume "t = clock + wait_ms p"
      then show ?thesis by simp
    next
      assume "t \<in> set (call_times (process_message_queue ps (c', [], b')))"
      from Cons.IH[OF this] le show ?thesis by simp
    qed
  qed
qed

lemma call_times_gap:
  "Suc i < length (call_times (process_message_queue ps (clock, [], b))) \<Longrightarrow>
   call_times (process_message_queue ps (clock, [], b)) ! i
     + (if send_ok (ps ! i) then min_send_delay_ms else 0)
   \<le> call_times (process_message_queue ps (clock, [], b)) ! Suc i"
proof (induction ps arbitrary: clock b i)
  case Nil
  then show ?case by (simp add: call_times_def)
next
  case (Cons p ps)
  show ?case
  proof (cases "message_queue b")
    case Nil
    with Cons.prems show ?thesis by (simp add: call_times_def)
  next
    case (Cons m rest)
    from call_times_step[OF Cons, of p ps clock] obtain c' b' where
      eq: "call_times (process_message_queue (p # ps) (clock, [], b)) =
             (clock + wait_ms p) # call_times (process_message_queue ps (c', [], b'))"
      and le: "clock + wait_ms p + (if send_ok p then min_send_delay_ms else 0) \<le> c'"
      by blast
    let ?rest = "call_times (process_message_queue ps (c', [], b'))"
    show ?thesis
    proof (cases i)
      case 0
      from Cons.prems eq 0 have "0 < length ?rest" by simp
      then have "?rest ! 0 \<in> set ?rest" by simp
      from call_times_not_before_clock[OF this] have "c' \<le> ?rest ! 0" .
      with eq 0 le show ?thesis by simp
    next
      case (Suc j)
      from Cons.prems eq Suc have "Suc j < length ?rest" by simp
      from Cons.IH[OF this] eq Suc show ?thesis by simp
    qed
  qed
qed

text \<open>
  C3 as stated fails: the first send is rejected, the loop goes on without
  sleeping, and the second call follows 20 ms after the first.
\<close>

theorem drain_spacing_counterexample:
  "call_times (process_message_queue rejected_then_sent (0, [], two_queued)) = [0, 20]
   \<and> \<not> (call_times (process_message_queue rejected_then_sent (0, [], two_queued)) ! 0 + min_send_delay_ms
          \<le> call_times (process_message_queue rejected_then_sent (0, [], two_queued)) ! 1)"
  by code_simp

text \<open>
  C3, as the code has it. Between a call of \<^verbatim>\<open>bot.send_message\<close> that returned
  and the next call at least \<open>min_send_delay_ms\<close> (50 ms) pass; after a call that
  raised the loop takes the next request without sleeping, so the next call
  is only known not to come earlier.
\<close>

theorem drain_spacing_after_success:
  "Suc i < length (call_times (process_message_queue ps (clock, [], b))) \<longrightarrow>
   (send_ok (ps ! i) \<longrightarrow>
      call_times (process_message_queue ps (clock, [], b)) ! i + min_send_delay_ms
        \<le> call_times (process_message_queue ps (clock, [], b)) ! Suc i)
   \<and> call_times (process_message_queue ps (clock, [], b)) ! i
        \<le> call_times (process_message_queue ps (clock, [], b)) ! Suc i"
proof (intro impI conjI)
  assume l: "Suc i < length (call_times (process_message_queue ps (clock, [], b)))"
  show "call_times (process_message_queue ps (clock, [], b)) ! i + min_send_delay_ms
        \<le> call_times (process_message_queue ps (clock, [], b)) ! Suc i" if "send_ok (ps ! i)"
    using call_times_gap[OF l] that by simp
  show "call_times (process_message_queue ps (clock, [], b)) ! i
        \<le> call_times (process_message_queue ps (clock, [], b)) ! Suc i"
    using call_times_gap[OF l] by (simp split: if_splits)
qed

theorem drain_spacing_after_success_witness:
  "call_times (process_message_queue both_sent (0, [], two_queued)) = [0, 73]
   \<and> call_times (process_message_queue both_sent (0, [], two_queued)) ! 0 + min_send_delay_ms
        \<le> call_times (process_message_queue both_sent (0, [], two_queued)) ! Suc 0"
proof -
  have e: "call_times (process_message_queue both_sent (0, [], two_queued)) = [0, 73]"
    by code_simp
  have l: "Suc 0 < length (call_times (process_message_queue both_sent (0, [], two_queued)))"
    by (simp add: e)
  have k: "send_ok (both_sent ! 0)" by (simp add: both_sent_def)
  from drain_spacing_after_success[of 0 both_sent 0 two_queued] l k e show ?thesis by simp
qed

section \<open>Facts about format\_schedule\<close>

lemma add_lesson_keys: "set (map fst (add_lesson acc l)) = insert (lessonDate l) (set (map fst acc))"
  by (induction acc l rule: add_lesson.induct) auto

lemma add_lesson_well_grouped: "well_grouped acc \<Longrightarrow> well_grouped (add_lesson acc l)"
proof (induction acc l rule: add_lesson.induct)
  case (1 l)
  then show ?case by (simp add: well_grouped_def)
next
  case (2 d ls rest l)
  show ?case
  proof (cases "d = lessonDate l")
    case True
    with 2 show ?thesis by (simp add: well_grouped_def)
  next
    case False
    from 2(2) have r: "well_grouped rest" by (simp add: well_grouped_def)
    from 2(1)[OF False r] have w: "well_grouped (add_lesson rest l)" .
    from 2(2) have "d \<notin> set (map fst rest)" by (simp add: well_grouped_def)
    with False have "d \<notin> set (map fst (add_lesson rest l))" by (simp only: add_lesson_keys) simp
    with w 2(2) False show ?thesis by (simp add: well_grouped_def)
  qed
qed

lemma add_lesson_lessons:
  "mset (concat (map snd (add_lesson acc l))) = mset (concat (map snd acc)) + {#l#}"
  by (induction acc l rule: add_lesson.induct) auto

lemma group_by_date_well_grouped:
  "well_grouped acc \<Longrightarrow> well_grouped (group_by_date is_group target acc recs)"
  by (induction recs arbitrary: acc) (simp_all add: add_lesson_well_grouped)

lemma group_by_date_lessons:
  "mset (concat (map snd (group_by_date is_group target acc recs))) =
     mset (concat (map snd acc)) + mset (filter (\<lambda>l. \<not> skip_lesson is_group target l) recs)"
  by (induction recs arbitrary: acc) (simp_all add: add_lesson_lessons)

lemma sorted_days_keys: "map fst (sorted_days by_date) = map fst (sort_key fst by_date)"
  by (simp add: sorted_days_def case_prod_beta comp_def)

lemma sorted_days_sorted: "sorted (map fst (sorted_days by_date))"
  by (simp add: sorted_days_keys)

lemma sorted_days_distinct:
  assumes "distinct (map fst by_date)"
  shows "distinct (map fst (sorted_days by_date))"
proof -
  have "mset (map fst (sort_key fst by_date)) = mset (map fst by_date)" by simp
  from mset_eq_imp_distinct_iff[OF this] assms show ?thesis by (simp add: sorted_days_keys)
qed

lemma sorted_days_member:
  assumes "(date, ls) \<in> set (sorted_days by_date)"
  shows "\<exists>ls0. (date, ls0) \<in> set by_date \<and> ls = sort_key lessonTimeStart ls0"
  using assms by (auto simp: sorted_days_def)

lemma sorted_days_lessons:
  "mset (concat (map snd (sorted_days by_date))) = mset (concat (map snd by_date))"
proof -
  have 1: "mset (concat (map snd (sorted_days by_date))) =
           (\<Sum>day\<leftarrow>sort_key fst by_date. mset (snd day))"
    by (simp add: mset_concat sorted_days_def comp_def case_prod_beta)
  have 2: "(\<Sum>day\<leftarrow>sort_key fst by_date. mset (snd day)) =
           sum_mset (image_mset (\<lambda>day. mset (snd day)) (mset (sort_key fst by_date)))"
    by (simp flip: sum_mset_sum_list)
  have 3: "mset (concat (map snd by_date)) =
           sum_mset (image_mset (\<lambda>day. mset (snd day)) (mset by_date))"
    by (simp add: mset_concat comp_def flip: sum_mset_sum_list)
  from 1 2 3 show ?thesis by simp
qed

lemma resolve_subject_group:
  assumes "resolve_subject get_lecturer_by_id d recs = Inr r" and "is_group_schedule r"
  shows "\<exists>code. schedule_type r = Group_label code \<and> target_group r = Some code"
  using assms
  by (auto simp: resolve_subject_def Let_def split: option.splits if_splits)

lemma resolve_subject_requested:
  assumes "resolve_subject get_lecturer_by_id d recs = Inr r" and "requested_group d = Some g"
  shows "is_group_schedule r \<and> schedule_type r = Group_label (groupCode g)"
  using assms by (auto simp: resolve_subject_def)

lemma resolve_subject_lecturer:
  assumes "resolve_subject get_lecturer_by_id d recs = Inr r"
    and "requested_group d = None" and "url d = Some u" and "contains u ''lecturers''"
  shows "\<not> is_group_schedule r"
  using assms
  by (auto simp: resolve_subject_def Let_def split: option.splits if_splits)

lemma format_schedule_rendered:
  assumes "format_schedule get_lecturer_by_id strptime_ok d = Inr (Rendered label is_group days)"
  shows "\<exists>r. resolve_subject get_lecturer_by_id d (get_records d) = Inr r \<and>
             label = schedule_type r \<and> is_group = is_group_schedule r \<and>
             days = sorted_days (group_by_date is_group (target_group r) [] (get_records d))"
  using assms
  by (auto simp: format_schedule_def Let_def split: if_splits sum.splits)

lemma skip_lesson_group:
  "skip_lesson True (Some code) l = (code \<notin> set (map groupCode (lessonGroups l)))"
  by (auto simp: skip_lesson_def)

lemma skip_lesson_lecturer: "skip_lesson False target l = False"
  by (simp add: skip_lesson_def)

lemma rendered_lessons:
  assumes "format_schedule get_lecturer_by_id strptime_ok d = Inr (Rendered label is_group days)"
  shows "\<exists>r. resolve_subject get_lecturer_by_id d (get_records d) = Inr r \<and>
             label = schedule_type r \<and> is_group = is_group_schedule r \<and>
             mset (concat (map snd days)) =
               mset (filter (\<lambda>l. \<not> skip_lesson is_group (target_group r) l) (get_records d))"
proof -
  from format_schedule_rendered[OF assms] obtain r where
    r: "resolve_subject get_lecturer_by_id d (get_records d) = Inr r"
      "label = schedule_type r" "is_group = is_group_schedule r"
      "days = sorted_days (group_by_date is_group (target_group r) [] (get_records d))"
    by blast
  have "mset (concat (map snd days)) =
        mset (filter (\<lambda>l. \<not> skip_lesson is_group (target_group r) l) (get_records d))"
    unfolding r(4) sorted_days_lessons group_by_date_lessons by simp
  with r show ?thesis by blast
qed

text \<open>
  C5. When \<^verbatim>\<open>format_schedule\<close> prints a schedule as a group's (the subject was
  resolved to a group code, which the header shows), the lessons printed are
  exactly the fetched lessons whose \<^verbatim>\<open>lessonGroups\<close> contain that code, so every
  lesson printed contains it. Otherwise no filter is applied: the lessons
  printed are exactly the fetched ones. A payload with \<^verbatim>\<open>'requested_group'\<close> is
  printed as that group's; a payload without it whose URL contains
  \<^verbatim>\<open>lecturers\<close> is never printed as a group's.
\<close>

theorem format_schedule_group_filter:
  "format_schedule get_lecturer_by_id strptime_ok d = Inr (Rendered label is_group days) \<longrightarrow>
     (is_group \<longrightarrow>
        (\<exists>code. label = Group_label code \<and>
           mset (concat (map snd days)) =
             mset (filter (\<lambda>l. code \<in> set (map groupCode (lessonGroups l))) (get_records d)) \<and>
           (\<forall>day \<in> set days. \<forall>l \<in> set (snd day). code \<in> set (map groupCode (lessonGroups l)))))
     \<and> (\<not> is_group \<longrightarrow> mset (concat (map snd days)) = mset (get_records d))
     \<and> (\<forall>g. requested_group d = Some g \<longrightarrow> is_group \<and> label = Group_label (groupCode g))
     \<and> (\<forall>u. requested_group d = None \<and> url d = Some u \<and> contains u ''lecturers'' \<longrightarrow> \<not> is_group)"
proof (intro impI)
  assume a: "format_schedule get_lecturer_by_id strptime_ok d = Inr (Rendered label is_group days)"
  from rendered_lessons[OF a] obtain r where
    r: "resolve_subject get_lecturer_by_id d (get_records d) = Inr r"
      "label = schedule_type r" "is_group = is_group_schedule r"
    and m: "mset (concat (map snd days)) =
               mset (filter (\<lambda>l. \<not> skip_lesson is_group (target_group r) l) (get_records d))"
    by blast
  have 1: "\<exists>code. label = Group_label code \<and>
           mset (concat (map snd days)) =
             mset (filter (\<lambda>l. code \<in> set (map groupCode (lessonGroups l))) (get_records d)) \<and>
           (\<forall>day \<in> set days. \<forall>l \<in> set (snd day). code \<in> set (map groupCode (lessonGroups l)))"
    if g: "is_group"
  proof -
    from resolve_subject_group[OF r(1)] g r(3) obtain code where
      c: "schedule_type r = Group_label code" "target_group r = Some code" by blast
    from m g c have e: "mset (concat (map snd days)) =
        mset (filter (\<lambda>l. code \<in> set (map groupCode (lessonGroups l))) (get_records d))"
      by (simp add: skip_lesson_group)
    have "\<forall>day \<in> set days. \<forall>l \<in> set (snd day). code \<in> set (map groupCode (lessonGroups l))"
    proof (intro ballI)
      fix day l
      assume "day \<in> set days" "l \<in> set (snd day)"
      then have "l \<in> set (concat (map snd days))" by auto
      then have "l \<in># mset (concat (map snd days))" by simp
      with e have "l \<in># mset (filter (\<lambda>l. code \<in> set (map groupCode (lessonGroups l))) (get_records d))"
        by simp
      then show "code \<in> set (map groupCode (lessonGroups l))" by simp
    qed
    with e c r(2) show ?thesis by blast
  qed
  have 2: "mset (concat (map snd days)) = mset (get_records d)" if "\<not> is_group"
    using m that by (simp add: skip_lesson_lecturer)
  have 3: "is_group \<and> label = Group_label (groupCode g)" if "requested_group d = Some g" for g
    using resolve_subject_requested[OF r(1) that] r(2,3) by simp
  have 4: "\<not> is_group" if "requested_group d = None \<and> url d = Some u \<and> contains u ''lecturers''" for u
    using resolve_subject_lecturer[OF r(1)] that r(3) by blast
  from 1 2 3 4 show "(is_group \<longrightarrow>
        (\<exists>code. label = Group_label code \<and>
           mset (concat (map snd days)) =
             mset (filter (\<lambda>l. code \<in> set (map groupCode (lessonGroups l))) (get_records d)) \<and>
           (\<forall>day \<in> set days. \<forall>l \<in> set (snd day). code \<in> set (map groupCode (lessonGroups l)))))
     \<and> (\<not> is_group \<longrightarrow> mset (concat (map snd days)) = mset (get_records d))
     \<and> (\<forall>g. requested_group d = Some g \<longrightarrow> is_group \<and> label = Group_label (groupCode g))
     \<and> (\<forall>u. requested_group d = None \<and> url d = Some u \<and> contains u ''lecturers'' \<longrightarrow> \<not> is_group)"
    by blast
qed

theorem format_schedule_group_filter_witness:
  "format_schedule one_lecturer yyyymmdd group_week_data =
     Inr (Rendered (Group_label ''305c11-4'') True
           [(''20240102'', [lesson_b, lesson_a]), (''20240103'', [lesson_c])])
   \<and> mset [lesson_b, lesson_a, lesson_c] =
       mset (filter (\<lambda>l. ''305c11-4'' \<in> set (map groupCode (lessonGroups l)))
                    (get_records group_week_data))
   \<and> ''305c11-4'' \<in> set (map groupCode (lessonGroups lesson_b))
   \<and> format_schedule one_lecturer yyyymmdd lecturer_week_data =
     Inr (Rendered (Lecturer_label ''Ivanov'') False
           [(''20240102'', [lesson_b, lesson_a, lesson_x]), (''20240103'', [lesson_c])])
   \<and> mset [lesson_b, lesson_a, lesson_x, lesson_c] = mset (get_records lecturer_week_data)
   \<and> requested_group group_week_data = Some group_42
   \<and> Group_label ''305c11-4'' = Group_label (groupCode group_42)
   \<and> url lecturer_week_data = Some ''https://api/timetable/lecturers/15/65/7/''
   \<and> contains ''https://api/timetable/lecturers/15/65/7/'' ''lecturers''"
proof -
  let ?gdays = "[(''20240102'', [lesson_b, lesson_a]), (''20240103'', [lesson_c])]"
  let ?ldays = "[(''20240102'', [lesson_b, lesson_a, lesson_x]), (''20240103'', [lesson_c])]"
  have e1: "format_schedule one_lecturer yyyymmdd group_week_data =
     Inr (Rendered (Group_label ''305c11-4'') True ?gdays)"
    by code_simp
  have e2: "format_schedule one_lecturer yyyymmdd lecturer_week_data =
     Inr (Rendered (Lecturer_label ''Ivanov'') False ?ldays)"
    by code_simp
  note g = format_schedule_group_filter[of one_lecturer yyyymmdd group_week_data
      "Group_label ''305c11-4''" True ?gdays, rule_format, OF e1]
  note l = format_schedule_group_filter[of one_lecturer yyyymmdd lecturer_week_data
      "Lecturer_label ''Ivanov''" False ?ldays, rule_format, OF e2]
  from g obtain code where c: "Group_label ''305c11-4'' = Group_label code"
    and m: "mset (concat (map snd ?gdays)) =
             mset (filter (\<lambda>l. code \<in> set (map groupCode (lessonGroups l))) (get_records group_week_data))"
    and a: "\<forall>day \<in> set ?gdays. \<forall>l \<in> set (snd day). code \<in> set (map groupCode (lessonGroups l))"
    by blast
  from c have code: "code = ''305c11-4''" by simp
  from m code have 1: "mset [lesson_b, lesson_a, lesson_c] =
       mset (filter (\<lambda>l. ''305c11-4'' \<in> set (map groupCode (lessonGroups l)))
                    (get_records group_week_data))"
    by simp
  from a code have 2: "''305c11-4'' \<in> set (map groupCode (lessonGroups lesson_b))" by simp
  from l have 3: "mset [lesson_b, lesson_a, lesson_x, lesson_c] = mset (get_records lecturer_week_data)"
    by simp
  have r: "requested_group group_week_data = Some group_42"
    by (simp add: group_week_data_def)
  from g r have 4: "Group_label ''305c11-4'' = Group_label (groupCode group_42)" by blast
  have u: "requested_group lecturer_week_data = None \<and>
           url lecturer_week_data = Some ''https://api/timetable/lecturers/15/65/7/''"
    by (simp add: lecturer_week_data_def)
  have c: "contains ''https://api/timetable/lecturers/15/65/7/'' ''lecturers''"
    by code_simp
  from l u c have "\<not> False" by blast
  from e1 1 2 e2 3 r 4 u c show ?thesis by blast
qed

section \<open>String order and numeric order\<close>

lemma is_digit_range: "is_digit c \<Longrightarrow> 48 \<le> (of_char c :: nat) \<and> (of_char c :: nat) \<le> 57"
  by (auto simp: is_digit_def)

lemma digit_value_less: "is_digit c \<Longrightarrow> digit_value c < 10"
  using is_digit_range[of c] unfolding digit_value_def by linarith

lemma digit_less_iff:
  assumes "is_digit x" and "is_digit y"
  shows "x < y \<longleftrightarrow> digit_value x < digit_value y"
  using is_digit_range[OF assms(1)] is_digit_range[OF assms(2)]
  unfolding less_char_def digit_value_def by linarith

lemma digit_eq_iff:
  assumes "is_digit x" and "is_digit y"
  shows "x = y \<longleftrightarrow> digit_value x = digit_value y"
proof
  assume "digit_value x = digit_value y"
  with digit_less_iff[OF assms] digit_less_iff[OF assms(2,1)] have "\<not> x < y" "\<not> y < x" by auto
  then show "x = y" by auto
qed simp

lemma decimal_bound: "list_all is_digit cs \<Longrightarrow> decimal cs < 10 ^ length cs"
proof (induction cs)
  case Nil
  then show ?case by simp
next
  case (Cons c cs)
  define p :: nat where "p = 10 ^ length cs"
  from Cons have d: "digit_value c \<le> 9" and b: "decimal cs < p"
    using digit_value_less[of c] by (auto simp: p_def)
  from d have "digit_value c * p \<le> 9 * p" by (rule mult_le_mono1)
  with b have "digit_value c * p + decimal cs < 10 * p" by linarith
  then show ?case by (simp add: p_def)
qed

lemma decimal_order:
  assumes "length a = length b" and "list_all is_digit a" and "list_all is_digit b"
  shows "a \<le> b \<longleftrightarrow> decimal a \<le> decimal b"
  using assms
proof (induction a b rule: list_induct2)
  case Nil
  then show ?case by simp
next
  case (Cons x xs y ys)
  define p :: nat where "p = 10 ^ length xs"
  from Cons have dx: "is_digit x" and dy: "is_digit y"
    and ih: "xs \<le> ys \<longleftrightarrow> decimal xs \<le> decimal ys" by auto
  from Cons have bx: "decimal xs < p" and by': "decimal ys < p"
    using decimal_bound[of xs] decimal_bound[of ys] by (auto simp: p_def)
  have ex: "decimal (x # xs) = digit_value x * p + decimal xs" by (simp add: p_def)
  have ey: "decimal (y # ys) = digit_value y * p + decimal ys" using Cons.hyps by (simp add: p_def)
  consider "digit_value x < digit_value y" | "digit_value x = digit_value y" | "digit_value y < digit_value x"
    by linarith
  then show ?case
  proof cases
    case 1
    then have l: "x < y" using digit_less_iff[OF dx dy] by simp
    from 1 have "Suc (digit_value x) \<le> digit_value y" by simp
    then have "Suc (digit_value x) * p \<le> digit_value y * p" by (rule mult_le_mono1)
    then have "digit_value x * p + p \<le> digit_value y * p" by simp
    with bx have "digit_value x * p + decimal xs \<le> digit_value y * p + decimal ys" by linarith
    with l show ?thesis unfolding ex ey by simp
  next
    case 2
    then have "x = y" using digit_eq_iff[OF dx dy] by simp
    with ih 2 show ?thesis unfolding ex ey by simp
  next
    case 3
    then have "y < x" using digit_less_iff[OF dy dx] by simp
    then have n: "\<not> x < y" "x \<noteq> y" by auto
    from 3 have "Suc (digit_value y) \<le> digit_value x" by simp
    then have "Suc (digit_value y) * p \<le> digit_value x * p" by (rule mult_le_mono1)
    then have "digit_value y * p + p \<le> digit_value x * p" by simp
    with by' have "\<not> digit_value x * p + decimal xs \<le> digit_value y * p + decimal ys" by linarith
    with n show ?thesis unfolding ex ey by simp
  qed
qed

lemma yyyymmdd_order:
  assumes "yyyymmdd a" and "yyyymmdd b"
  shows "a \<le> b \<longleftrightarrow> decimal a \<le> decimal b"
  using assms decimal_order[of a b] by (simp add: yyyymmdd_def)

lemma colon_not_digit: "\<not> is_digit CHR '':''"
  by (simp add: is_digit_def)

lemma hhmm_order:
  assumes "hhmm a" and "hhmm b"
  shows "a \<le> b \<longleftrightarrow> clock_number a \<le> clock_number b"
proof -
  from assms(1) obtain a1 a2 a3 a4 where a: "a = [a1, a2, CHR '':'', a3, a4]"
    and da: "is_digit a1" "is_digit a2" "is_digit a3" "is_digit a4"
    by (auto elim!: hhmm.elims)
  from assms(2) obtain b1 b2 b3 b4 where b: "b = [b1, b2, CHR '':'', b3, b4]"
    and db: "is_digit b1" "is_digit b2" "is_digit b3" "is_digit b4"
    by (auto elim!: hhmm.elims)
  have fa: "filter is_digit a = [a1, a2, a3, a4]" using a da colon_not_digit by simp
  have fb: "filter is_digit b = [b1, b2, b3, b4]" using b db colon_not_digit by simp
  have "a \<le> b \<longleftrightarrow> [a1, a2, a3, a4] \<le> [b1, b2, b3, b4]" unfolding a b by simp
  also have "\<dots> \<longleftrightarrow> decimal [a1, a2, a3, a4] \<le> decimal [b1, b2, b3, b4]"
    by (rule decimal_order) (simp_all add: da db)
  finally show ?thesis by (simp only: clock_number_def fa fb)
qed

lemma sorted_map_mono:
  assumes "sorted xs" and "\<forall>x \<in> set xs. \<forall>y \<in> set xs. x \<le> y \<longleftrightarrow> f x \<le> (f y :: nat)"
  shows "sorted (map f xs)"
  using assms by (induction xs) auto

text \<open>
  C6. The days \<^verbatim>\<open>format_schedule\<close> prints are in strictly ascending order of
  the date string, each day holds at least one lesson and only lessons of
  that date, and the lessons of a day are in ascending order of the
  start-time string. Where the dates have the form \<^verbatim>\<open>%Y%m%d\<close> this is the
  ascending order of the numbers YYYYMMDD, and where the start times of a day
  have the form \<^verbatim>\<open>HH:MM\<close> it is the ascending order of the numbers HHMM.
\<close>

theorem format_schedule_days_sorted:
  "format_schedule get_lecturer_by_id strptime_ok d = Inr (Rendered label is_group days) \<longrightarrow>
     sorted (map fst days) \<and> distinct (map fst days)
     \<and> (\<forall>day \<in> set days.
           snd day \<noteq> [] \<and> (\<forall>l \<in> set (snd day). lessonDate l = fst day)
           \<and> sorted (map lessonTimeStart (snd day))
           \<and> (list_all hhmm (map lessonTimeStart (snd day)) \<longrightarrow>
                sorted (map clock_number (map lessonTimeStart (snd day)))))
     \<and> (list_all yyyymmdd (map fst days) \<longrightarrow> sorted (map decimal (map fst days)))"
proof (intro impI)
  assume a: "format_schedule get_lecturer_by_id strptime_ok d = Inr (Rendered label is_group days)"
  from format_schedule_rendered[OF a] obtain r :: resolved where
    days: "days = sorted_days (group_by_date is_group (target_group r) [] (get_records d))"
    by blast
  let ?G = "group_by_date is_group (target_group r) [] (get_records d)"
  have "well_grouped []" by (simp add: well_grouped_def)
  then have w: "well_grouped ?G" by (rule group_by_date_well_grouped)
  then have dk: "distinct (map fst ?G)" by (simp add: well_grouped_def)
  have s: "sorted (map fst days)" unfolding days by (rule sorted_days_sorted)
  have di: "distinct (map fst days)" unfolding days by (rule sorted_days_distinct[OF dk])
  have "snd day \<noteq> [] \<and> (\<forall>l \<in> set (snd day). lessonDate l = fst day)
           \<and> sorted (map lessonTimeStart (snd day))
           \<and> (list_all hhmm (map lessonTimeStart (snd day)) \<longrightarrow>
                sorted (map clock_number (map lessonTimeStart (snd day))))" if "day \<in> set days" for day
  proof -
    obtain date ls where day: "day = (date, ls)" by (cases day) auto
    from that day days sorted_days_member[of date ls ?G] obtain ls0 where
      l0: "(date, ls0) \<in> set ?G" "ls = sort_key lessonTimeStart ls0" by blast
    from w l0(1) have n: "ls0 \<noteq> []" and e: "\<forall>l \<in> set ls0. lessonDate l = date"
      by (auto simp: well_grouped_def list_all_iff)
    have "length ls = length ls0" using l0(2) by simp
    with n have 1: "ls \<noteq> []" by auto
    from e l0(2) have 2: "\<forall>l \<in> set ls. lessonDate l = date" by simp
    from l0(2) have 3: "sorted (map lessonTimeStart ls)" by simp
    have 4: "sorted (map clock_number (map lessonTimeStart ls))"
      if h: "list_all hhmm (map lessonTimeStart ls)"
    proof (rule sorted_map_mono[OF 3], intro ballI)
      fix x y
      assume "x \<in> set (map lessonTimeStart ls)" "y \<in> set (map lessonTimeStart ls)"
      with h have "hhmm x" "hhmm y" by (auto simp: list_all_iff)
      then show "x \<le> y \<longleftrightarrow> clock_number x \<le> clock_number y" by (rule hhmm_order)
    qed
    from 1 2 3 4 day show ?thesis by simp
  qed
  moreover have "sorted (map decimal (map fst days))" if h: "list_all yyyymmdd (map fst days)"
  proof (rule sorted_map_mono[OF s], intro ballI)
    fix x y
    assume "x \<in> set (map fst days)" "y \<in> set (map fst days)"
    with h have "yyyymmdd x" "yyyymmdd y" by (auto simp: list_all_iff)
    then show "x \<le> y \<longleftrightarrow> decimal x \<le> decimal y" by (rule yyyymmdd_order)
  qed
  ultimately show "sorted (map fst days) \<and> distinct (map fst days)
     \<and> (\<forall>day \<in> set days.
           snd day \<noteq> [] \<and> (\<forall>l \<in> set (snd day). lessonDate l = fst day)
           \<and> sorted (map lessonTimeStart (snd day))
           \<and> (list_all hhmm (map lessonTimeStart (snd day)) \<longrightarrow>
                sorted (map clock_number (map lessonTimeStart (snd day)))))
     \<and> (list_all yyyymmdd (map fst days) \<longrightarrow> sorted (map decimal (map fst days)))"
    using s di by blast
qed

theorem format_schedule_days_sorted_witness:
  "format_schedule one_lecturer yyyymmdd lecturer_week_data =
     Inr (Rendered (Lecturer_label ''Ivanov'') False
           [(''20240102'', [lesson_b, lesson_a, lesson_x]), (''20240103'', [lesson_c])])
   \<and> sorted [''20240102'', ''20240103'']
   \<and> sorted (map lessonTimeStart [lesson_b, lesson_a, lesson_x])
   \<and> sorted (map clock_number (map lessonTimeStart [lesson_b, lesson_a, lesson_x]))
   \<and> sorted (map decimal [''20240102'', ''20240103''])"
proof -
  let ?days = "[(''20240102'', [lesson_b, lesson_a, lesson_x]), (''20240103'', [lesson_c])]"
  have e: "format_schedule one_lecturer yyyymmdd lecturer_week_data =
     Inr (Rendered (Lecturer_label ''Ivanov'') False ?days)"
    by code_simp
  have h1: "list_all hhmm (map lessonTimeStart [lesson_b, lesson_a, lesson_x])" by code_simp
  have h2: "list_all yyyymmdd (map fst ?days)" by code_simp
  have m: "(''20240102'', [lesson_b, lesson_a, lesson_x]) \<in> set ?days" by simp
  note th = format_schedule_days_sorted[of one_lecturer yyyymmdd lecturer_week_data
      "Lecturer_label ''Ivanov''" False ?days, rule_format, OF e]
  from th have 1: "sorted (map fst ?days)" by blast
  from th m have 2: "sorted (map lessonTimeStart (snd (''20240102'', [lesson_b, lesson_a, lesson_x])))"
    by blast
  from th m h1 have 3: "sorted (map clock_number (map lessonTimeStart
      (snd (''20240102'', [lesson_b, lesson_a, lesson_x]))))"
    by (metis snd_conv)
  from th h2 have 4: "sorted (map decimal (map fst ?days))" by blast
  from e 1 2 3 4 show ?thesis by simp
qed

end
